theory Spec2Isabelle
  imports Complex_Main "HOL-Library.AList"
begin

section \<open>Joint model (expression module: VJoint, VPoint)\<close>

text \<open>
  The C doubles of the source are modelled as real numbers with exact arithmetic (nothing
  is rounded, and there are no infinities and no NaN), with two exceptions, where the
  answer turns on the rounding. The addition inside the float \<open>%\<close> of \<open>rotate\<close> rounds
  as binary64 does; the operations of the orientation test \<open>_clockwise\<close> round as binary64
  does, within its exponent range, and give the infinities and the NaN that binary64 gives.
  Joint indices, symbol counters and loop counters are C ints that only count joints and
  emitted symbols; they are modelled as natural numbers.

  An exception raised by the source is a value \<open>Inl\<close> of the model. The sources are
  written for Cython 0.29: their generators end by \<open>raise StopIteration\<close>, and \<open>move\<close>
  declares \<open>except *\<close> to let its exceptions out. In that build a method with a C return
  type and no exception clause prints an exception raised inside it and returns.
  \<open>set_inputs\<close> is modelled so. For \<open>slope_angle\<close> and \<open>same_points\<close> the value \<open>Inl\<close>
  marks the exception raised in the body (the caller gets the printed message and the
  return value 0); what is proved of these two concerns the calls that raise nothing.
\<close>

datatype error = KeyError | IndexError | TypeError | ValueError | UndefinedBehaviour

datatype VJoint = R | P | RP

text \<open>
  A \<open>VPoint\<close> object. The array \<open>c\<close> of the source has two object slots; \<open>c[0]\<close> is always
  a coordinate pair, \<open>c[1]\<close> is a coordinate pair for P and RP joints and stays \<open>None\<close> for R
  joints (set up by \<open>__cinit__\<close>, preserved by \<open>move\<close>). The record keeps both slots as pairs;
  the field \<open>c_1\<close> of an R joint stands for \<open>None\<close>, see \<open>c_at\<close>.
\<close>

record VPoint =
  links :: "string list"
  jtype :: VJoint
  angle :: real
  vx :: real
  vy :: real
  c_0 :: "real \<times> real"
  c_1 :: "real \<times> real"
  offset_flag :: bool
  offset_value :: real

text \<open>
  Modelled from the spec: the constant \<open>VLink.FRAME\<close>, which \<open>t_config\<close> reads and the
  \<open>VLink\<close> class of the expression module does not declare. The specification reserves the
  link name \<open>"ground"\<close> for the inertial frame, the name that \<open>grounded\<close> and
  \<open>pin_grounded\<close> test for.
\<close>

definition FRAME :: string where
  "FRAME = ''ground''"

text \<open>
  \<open>__cinit__\<close>, with the string of link names already freed of spaces and split at the
  commas; empty names are dropped.
\<close>

definition new_VPoint :: "string list \<Rightarrow> VJoint \<Rightarrow> real \<Rightarrow> real \<Rightarrow> real \<Rightarrow> VPoint" where
  "new_VPoint names j_type ang px py =
     \<lparr> links = filter (\<lambda>name. name \<noteq> []) names, jtype = j_type, angle = ang,
       vx = px, vy = py, c_0 = (px, py), c_1 = (px, py),
       offset_flag = False, offset_value = 0 \<rparr>"

definition c_r_joint :: "string list \<Rightarrow> real \<Rightarrow> real \<Rightarrow> VPoint" where
  "c_r_joint names px py = new_VPoint names R 0 px py"

definition c_slider_joint :: "string list \<Rightarrow> VJoint \<Rightarrow> real \<Rightarrow> real \<Rightarrow> real \<Rightarrow> VPoint" where
  "c_slider_joint names type_int ang px py = new_VPoint names type_int ang px py"

text \<open>
  Rounding of a real number to binary64, to the nearest value with ties to even: the
  result of one operation on doubles. \<open>binade a\<close> is the exponent \<open>e\<close> with
  \<open>2^e \<le> |a| < 2^(e+1)\<close>, and the values of that binade are the multiples of
  \<open>2^(e-52)\<close>. The exponent range is not bounded (no overflow, no subnormal numbers).
\<close>

definition round_half_even :: "real \<Rightarrow> int" where
  "round_half_even q =
     (let f = \<lfloor>q\<rfloor> in
      if q - of_int f < 1 / 2 then f
      else if 1 / 2 < q - of_int f then f + 1
      else if even f then f else f + 1)"

definition binade :: "real \<Rightarrow> int" where
  "binade a = \<lfloor>log 2 \<bar>a\<bar>\<rfloor>"

definition round_double :: "real \<Rightarrow> real" where
  "round_double a =
     (if a = 0 then 0
      else 2 powr of_int (binade a - 52)
           * of_int (round_half_even (a / 2 powr of_int (binade a - 52))))"

text \<open>
  The \<open>%\<close> of Cython on C doubles without the \<open>cdivision\<close> directive, which is the \<open>%\<close>
  of Python floats: \<open>r = fmod(a, b); r += ((r != 0) & ((r < 0) ^ (b < 0))) * b\<close>. The C
  \<open>fmod\<close> is exact (its result has the sign of the dividend); the addition that moves
  the result to the sign of the divisor is an addition of doubles and rounds.
\<close>

definition c_fmod :: "real \<Rightarrow> real \<Rightarrow> real" where
  "c_fmod a b = a - b * of_int (if 0 \<le> a / b then \<lfloor>a / b\<rfloor> else \<lceil>a / b\<rceil>)"

definition py_mod :: "real \<Rightarrow> real \<Rightarrow> real" where
  "py_mod a b = (let r = c_fmod a b in
                 if r \<noteq> 0 \<and> ((r < 0) \<noteq> (b < 0)) then round_double (r + b) else r)"

text \<open>\<open>move\<close>: the current coordinates; the second argument may be absent.\<close>

definition move :: "VPoint \<Rightarrow> real \<times> real \<Rightarrow> (real \<times> real) option \<Rightarrow> VPoint" where
  "move self c1 c2 =
     (if jtype self = P \<or> jtype self = RP
      then self\<lparr>c_0 := c1, c_1 := (case c2 of None \<Rightarrow> c1 | Some c \<Rightarrow> c)\<rparr>
      else self\<lparr>c_0 := c1\<rparr>)"

definition rotate_vpoint :: "VPoint \<Rightarrow> real \<Rightarrow> VPoint" where
  "rotate_vpoint self a = self\<lparr>angle := py_mod a 180\<rparr>"

definition set_offset :: "VPoint \<Rightarrow> real \<Rightarrow> VPoint" where
  "set_offset self off = self\<lparr>offset_flag := True, offset_value := off\<rparr>"

definition disable_offset :: "VPoint \<Rightarrow> VPoint" where
  "disable_offset self = self\<lparr>offset_flag := False\<rparr>"

definition has_offset :: "VPoint \<Rightarrow> bool" where
  "has_offset self = offset_flag self"

definition is_slot_link :: "VPoint \<Rightarrow> string \<Rightarrow> bool" where
  "is_slot_link self link_name =
     (if jtype self = R then False
      else if links self \<noteq> [] then link_name = hd (links self)
      else False)"

definition grounded :: "VPoint \<Rightarrow> bool" where
  "grounded self =
     (if jtype self = R then ''ground'' \<in> set (links self)
      else if links self \<noteq> [] then is_slot_link self ''ground''
      else False)"

definition pin_grounded :: "VPoint \<Rightarrow> bool" where
  "pin_grounded self = (''ground'' \<in> set (tl (links self)))"

definition no_link :: "VPoint \<Rightarrow> bool" where
  "no_link self = (links self = [])"

text \<open>
  \<open>self.c[i]\<close> unpacked into two doubles, for a C int index: an array of two object
  slots with the wrap-around of negative indices, the second slot \<open>None\<close> for an R joint.
\<close>

definition c_at :: "VPoint \<Rightarrow> int \<Rightarrow> error + (real \<times> real)" where
  "c_at self i =
     (if i = 0 \<or> i = - 2 then Inr (c_0 self)
      else if i = 1 \<or> i = - 1 then (if jtype self = R then Inl TypeError else Inr (c_1 self))
      else Inl IndexError)"

text \<open>The C library functions \<open>hypot\<close> and \<open>atan2\<close>, over the reals.\<close>

definition hypot :: "real \<Rightarrow> real \<Rightarrow> real" where
  "hypot a b = sqrt (a * a + b * b)"

definition atan2 :: "real \<Rightarrow> real \<Rightarrow> real" where
  "atan2 b a =
     (if 0 < a then arctan (b / a)
      else if a < 0 then (if 0 \<le> b then arctan (b / a) + pi else arctan (b / a) - pi)
      else if 0 < b then pi / 2
      else if b < 0 then - (pi / 2)
      else 0)"

text \<open>
  \<open>tuple(set(self.links) & set(p.links))\<close>: the names common to both joints, in the order
  in which the intersection set is iterated. The language leaves that order open; CPython
  iterates the hash table of the set, so the order follows the (per process randomised)
  string hashes and, where two names fall on the same slot, the order of insertion, which
  depends on the operands and on which one is \<open>self\<close>. The model takes the table position
  as a parameter: \<open>slot A B l\<close> is the position of the name \<open>l\<close> in the set built
  from the link tuples \<open>A\<close> (of \<open>self\<close>) and \<open>B\<close> (of \<open>p\<close>).
\<close>

definition inter_links :: "string list \<Rightarrow> string list \<Rightarrow> string list" where
  "inter_links A B = filter (\<lambda>l. l \<in> set B) (remdups A)"

definition on_links_of ::
  "(string list \<Rightarrow> string list \<Rightarrow> string \<Rightarrow> nat) \<Rightarrow> VPoint \<Rightarrow> VPoint \<Rightarrow> string list" where
  "on_links_of slot self p =
     sort_key (slot (links self) (links p)) (inter_links (links self) (links p))"

definition distance ::
  "(string list \<Rightarrow> string list \<Rightarrow> string \<Rightarrow> nat) \<Rightarrow> VPoint \<Rightarrow> VPoint \<Rightarrow> real" where
  "distance slot self p =
     (let on_links = on_links_of slot self p in
      if on_links \<noteq> [] then
        (let m = (if jtype self = R \<or> hd (links self) = hd on_links then c_0 self else c_1 self);
             q = (if jtype p = R \<or> hd (links p) = hd on_links then c_0 p else c_1 p)
         in hypot (fst q - fst m) (snd q - snd m))
      else hypot (fst (c_0 p) - fst (c_0 self)) (snd (c_0 p) - snd (c_0 self)))"

text \<open>
  One table order, for examples: the position of a name in the link tuple of \<open>p\<close>. It is
  the order CPython produces for two operands of equal size whose names collide in the hash
  table (the intersection walks the second operand and inserts what it finds).
\<close>

definition slot_by_other :: "string list \<Rightarrow> string list \<Rightarrow> string \<Rightarrow> nat" where
  "slot_by_other A B l = length (takeWhile (\<lambda>y. y \<noteq> l) B)"

definition true_offset :: "VPoint \<Rightarrow> real" where
  "true_offset self = hypot (fst (c_1 self) - fst (c_0 self)) (snd (c_1 self) - snd (c_0 self))"

definition slope_angle :: "VPoint \<Rightarrow> VPoint \<Rightarrow> int \<Rightarrow> int \<Rightarrow> error + real" where
  "slope_angle self p num1 num2 =
     (case (if num1 > 1 then Inr (vx self, vy self) else c_at self num2) of
        Inl e \<Rightarrow> Inl e
      | Inr xy2 \<Rightarrow>
          (case (if num2 > 1 then Inr (vx p, vy p) else c_at p num2) of
             Inl e \<Rightarrow> Inl e
           | Inr xy1 \<Rightarrow> Inr (atan2 (snd xy1 - snd xy2) (fst xy1 - fst xy2) / pi * 180)))"

text \<open>
  The words of the specification for \<open>slope_angle\<close>: the endpoint of a joint that a selector
  names (0 the slot anchor \<open>c[0]\<close>, 1 the pin \<open>c[1]\<close>, 2 and above the original \<open>x, y\<close>),
  and the angle in degrees from the horizontal of the vector from one point to another.
  These two follow the specification, not the source.
\<close>

definition endpoint :: "VPoint \<Rightarrow> int \<Rightarrow> error + (real \<times> real)" where
  "endpoint v n = (if n > 1 then Inr (vx v, vy v) else c_at v n)"

definition vector_angle :: "real \<times> real \<Rightarrow> real \<times> real \<Rightarrow> real" where
  "vector_angle from_pt to_pt =
     atan2 (snd to_pt - snd from_pt) (fst to_pt - fst from_pt) / pi * 180"

section \<open>Solver system (bfgs module: SolverSystem)\<close>

text \<open>
  The part of a \<open>SolverSystem\<close> that \<open>same_points\<close> and \<open>set_inputs\<close> read and write: the
  joint list, the dict of inputs and the list \<open>inputs_angle\<close> of radian driver angles that
  the angle constraints point into. The parameter pools and constraint records of
  \<open>build_expression\<close> are not represented.

  A dict is an association list in insertion order. \<open>__cinit__\<close> keeps the dict that the
  caller passes (\<open>self.inputs = inputs\<close>), not a copy: the caller and the solver hold one
  object. The dicts are therefore kept in a store, which maps the identity of a dict to its
  items, and the solver holds the identity.
\<close>

type_synonym inputs_t = "((nat \<times> nat) \<times> real) list"

type_synonym store = "nat \<Rightarrow> inputs_t"

record SolverSystem =
  ss_vpoints :: "VPoint list"
  ss_inputs :: nat
  ss_inputs_angle :: "real list"

definition radians :: "real \<Rightarrow> real" where
  "radians degree = degree / 180 * pi"

text \<open>The last loop of \<open>build_expression\<close>: one radian angle per input pair with \<open>b \<noteq> d\<close>.\<close>

fun input_angles :: "inputs_t \<Rightarrow> real list" where
  "input_angles [] = []"
| "input_angles (((b, d), a) # rest) =
     (if b = d then input_angles rest else radians a # input_angles rest)"

text \<open>
  \<open>__cinit__\<close>. For \<open>inputs = None\<close> it makes a new empty dict; \<open>fresh\<close> is the identity
  of that dict, which nothing else holds.
\<close>

definition new_SolverSystem ::
  "VPoint list \<Rightarrow> nat option \<Rightarrow> nat \<Rightarrow> store \<Rightarrow> SolverSystem \<times> store" where
  "new_SolverSystem vps inputs_arg fresh h =
     (case inputs_arg of
        None \<Rightarrow>
          (\<lparr> ss_vpoints = vps, ss_inputs = fresh, ss_inputs_angle = input_angles [] \<rparr>,
           h(fresh := []))
      | Some r \<Rightarrow>
          (\<lparr> ss_vpoints = vps, ss_inputs = r, ss_inputs_angle = input_angles (h r) \<rparr>, h))"

fun same_points_from :: "VPoint list \<Rightarrow> nat \<Rightarrow> VPoint list \<Rightarrow> error + bool" where
  "same_points_from stored i [] = Inr True"
| "same_points_from stored i (p1 # rest) =
     (if i < length stored then
        (if links p1 \<noteq> links (stored ! i) then Inr False
         else same_points_from stored (i + 1) rest)
      else Inl IndexError)"

definition same_points :: "SolverSystem \<Rightarrow> VPoint list \<Rightarrow> error + bool" where
  "same_points self vps = same_points_from (ss_vpoints self) 0 vps"

definition show_inputs :: "SolverSystem \<Rightarrow> store \<Rightarrow> (nat \<times> nat) set" where
  "show_inputs self h = set (map fst (h (ss_inputs self)))"

text \<open>\<open>dict.update\<close>: each item of the argument is stored, in the argument's order.\<close>

definition dict_update :: "('k \<times> 'v) list \<Rightarrow> ('k \<times> 'v) list \<Rightarrow> ('k \<times> 'v) list" where
  "dict_update d new = fold (\<lambda>kv acc. AList.update (fst kv) (snd kv) acc) new d"

text \<open>
  The write loop of \<open>set_inputs\<close>: the iterator \<open>it\<close> over \<open>inputs_angle\<close> is the index
  \<open>k\<close>; stepping it past the end of the list is undefined behaviour in C++, an error here.
\<close>

fun write_angles :: "inputs_t \<Rightarrow> nat \<Rightarrow> real list \<Rightarrow> error + real list" where
  "write_angles [] k angles = Inr angles"
| "write_angles (((b, d), a) # rest) k angles =
     (if b = d then write_angles rest k angles
      else if k < length angles then write_angles rest (k + 1) (angles[k := radians a])
      else Inl UndefinedBehaviour)"

text \<open>
  \<open>set_inputs\<close> is declared \<open>cpdef void\<close> with no exception clause: its \<open>ValueError\<close> is
  printed and dropped, and the call returns as any other. The value \<open>Inr (Some e, self, h)\<close>
  is such a return, after the exception \<open>e\<close> and with nothing changed;
  \<open>Inr (None, self', h')\<close> is a return without an exception. The argument dict is only
  read and is taken by its items.
\<close>

definition set_inputs ::
  "SolverSystem \<Rightarrow> inputs_t option \<Rightarrow> store
     \<Rightarrow> error + (error option \<times> SolverSystem \<times> store)" where
  "set_inputs self inputs_arg h =
     (case inputs_arg of
        None \<Rightarrow> Inr (Some ValueError, self, h)
      | Some new \<Rightarrow>
          if \<not> (set (map fst new) \<subseteq> show_inputs self h) then Inr (Some ValueError, self, h)
          else
            (let ins = dict_update (h (ss_inputs self)) new
             in case write_angles ins 0 (ss_inputs_angle self) of
                  Inl e \<Rightarrow> Inl e
                | Inr angles \<Rightarrow>
                    Inr (None, self\<lparr>ss_inputs_angle := angles\<rparr>, h(ss_inputs self := ins))))"

section \<open>Triangulation (triangulation module)\<close>

subsection \<open>Symbols and construction records\<close>

text \<open>
  Modelled from the spec: the label constants and the \<open>Expr\<close> struct, which the
  triangulation module uses and its declaration file holds. The specification names four
  namespaces of symbols, P (point), L (length), A (angle) and S (synthetic slider anchor),
  and the tags PLA, PLAP, PLLP, PLPP and PXY. A symbol is a pair of a label and an index;
  \<open>OTHER_LABEL\<close> stands for any label that \<open>symbol_str\<close> does not name.
  An \<open>Expr\<close> is the C struct with its discriminator \<open>func\<close>: one constructor per value
  of \<open>func\<close>, carrying the fields that the \<open>add_\<close> method of that kind assigns, in the
  order \<open>c1, v1, v2, c2, c3\<close> (for PLPP: \<open>c1, v1, c2, c3, c4, op\<close>).
\<close>

datatype Label = P_LABEL | L_LABEL | A_LABEL | S_LABEL | OTHER_LABEL

type_synonym sym = "Label \<times> nat"

datatype Expr =
    PLA sym sym sym sym
  | PLAP sym sym sym sym sym
  | PLLP sym sym sym sym sym
  | PLPP sym sym sym sym sym bool
  | PXY sym sym sym sym

definition digit_str :: "nat \<Rightarrow> string" where
  "digit_str d = [''0123456789'' ! d]"

fun str_of_nat :: "nat \<Rightarrow> string" where
  "str_of_nat n = (if n < 10 then digit_str n else str_of_nat (n div 10) @ digit_str (n mod 10))"

definition symbol_str :: "sym \<Rightarrow> string" where
  "symbol_str p =
     (case fst p of
        P_LABEL \<Rightarrow> ''P'' @ str_of_nat (snd p)
      | L_LABEL \<Rightarrow> ''L'' @ str_of_nat (snd p)
      | A_LABEL \<Rightarrow> ''a'' @ str_of_nat (snd p)
      | S_LABEL \<Rightarrow> ''S'' @ str_of_nat (snd p)
      | OTHER_LABEL \<Rightarrow> '''')"

definition add_pla :: "Expr list \<Rightarrow> sym \<Rightarrow> sym \<Rightarrow> sym \<Rightarrow> sym \<Rightarrow> Expr list" where
  "add_pla stack c1 v1 v2 target = stack @ [PLA c1 v1 v2 target]"

definition add_plap :: "Expr list \<Rightarrow> sym \<Rightarrow> sym \<Rightarrow> sym \<Rightarrow> sym \<Rightarrow> sym \<Rightarrow> Expr list" where
  "add_plap stack c1 v1 v2 c2 target = stack @ [PLAP c1 v1 v2 c2 target]"

definition add_pllp :: "Expr list \<Rightarrow> sym \<Rightarrow> sym \<Rightarrow> sym \<Rightarrow> sym \<Rightarrow> sym \<Rightarrow> Expr list" where
  "add_pllp stack c1 v1 v2 c2 target = stack @ [PLLP c1 v1 v2 c2 target]"

definition add_plpp :: "Expr list \<Rightarrow> sym \<Rightarrow> sym \<Rightarrow> sym \<Rightarrow> sym \<Rightarrow> sym \<Rightarrow> bool \<Rightarrow> Expr list" where
  "add_plpp stack c1 v1 c2 c3 target op = stack @ [PLPP c1 v1 c2 c3 target op]"

definition add_pxy :: "Expr list \<Rightarrow> sym \<Rightarrow> sym \<Rightarrow> sym \<Rightarrow> sym \<Rightarrow> Expr list" where
  "add_pxy stack c1 v1 v2 target = stack @ [PXY c1 v1 v2 target]"

fun as_list :: "Expr list \<Rightarrow> string list list" where
  "as_list [] = []"
| "as_list (PLA c1 v1 v2 c2 # rest) =
     [''PLAP'', symbol_str c1, symbol_str v1, symbol_str v2, symbol_str c2] # as_list rest"
| "as_list (PLAP c1 v1 v2 c2 c3 # rest) =
     [''PLAP'', symbol_str c1, symbol_str v1, symbol_str v2, symbol_str c2, symbol_str c3]
       # as_list rest"
| "as_list (PLLP c1 v1 v2 c2 c3 # rest) =
     [''PLLP'', symbol_str c1, symbol_str v1, symbol_str v2, symbol_str c2, symbol_str c3]
       # as_list rest"
| "as_list (PLPP c1 v1 c2 c3 c4 op # rest) =
     [''PLPP'', symbol_str c1, symbol_str v1, symbol_str c2, symbol_str c3, symbol_str c4]
       # as_list rest"
| "as_list (PXY c1 v1 v2 c2 # rest) =
     [''PXY'', symbol_str c1, symbol_str v1, symbol_str v2, symbol_str c2] # as_list rest"

subsection \<open>Orientation test\<close>

text \<open>
  A Python float: a finite value, an infinity (the flag says whether it is the negative one)
  or a NaN. The two zeros are one value; no operation below tells them apart.
\<close>

datatype pyfloat = Fin real | Inf bool | NaN

text \<open>
  The result of one operation whose exact value is \<open>a\<close>: rounded to the nearest binary64
  value, ties to even; below \<open>2^-1022\<close> the values are the multiples of \<open>2^-1074\<close>, and a
  result that rounds to \<open>2^1024\<close> or more is an infinity.
\<close>

definition round_binary64 :: "real \<Rightarrow> pyfloat" where
  "round_binary64 a =
     (if \<bar>a\<bar> < 2 powr (- 1022)
      then Fin (2 powr (- 1074) * of_int (round_half_even (a / 2 powr (- 1074))))
      else if 2 powr 1024 \<le> \<bar>round_double a\<bar> then Inf (a < 0)
      else Fin (round_double a))"

fun fl_sub :: "pyfloat \<Rightarrow> pyfloat \<Rightarrow> pyfloat" where
  "fl_sub (Fin x) (Fin y) = round_binary64 (x - y)"
| "fl_sub NaN b = NaN"
| "fl_sub a NaN = NaN"
| "fl_sub (Inf s) (Inf t) = (if s = t then NaN else Inf s)"
| "fl_sub (Inf s) (Fin y) = Inf s"
| "fl_sub (Fin x) (Inf t) = Inf (\<not> t)"

fun fl_mul :: "pyfloat \<Rightarrow> pyfloat \<Rightarrow> pyfloat" where
  "fl_mul (Fin x) (Fin y) = round_binary64 (x * y)"
| "fl_mul NaN b = NaN"
| "fl_mul a NaN = NaN"
| "fl_mul (Inf s) (Inf t) = Inf (s \<noteq> t)"
| "fl_mul (Inf s) (Fin y) = (if y = 0 then NaN else Inf (s \<noteq> (y < 0)))"
| "fl_mul (Fin x) (Inf t) = (if x = 0 then NaN else Inf ((x < 0) \<noteq> t))"

fun fl_is_zero :: "pyfloat \<Rightarrow> bool" where
  "fl_is_zero (Fin x) = (x = 0)"
| "fl_is_zero (Inf s) = False"
| "fl_is_zero NaN = False"

fun fl_pos :: "pyfloat \<Rightarrow> bool" where
  "fl_pos (Fin x) = (0 < x)"
| "fl_pos (Inf s) = (\<not> s)"
| "fl_pos NaN = False"

text \<open>
  \<open>_clockwise\<close> takes three tuples of Python floats (the model takes their values, which
  are finite). Each of the four differences, the two products and the last difference is
  one float operation; the value \<open>val\<close> is compared with zero.
\<close>

definition clockwise :: "real \<times> real \<Rightarrow> real \<times> real \<Rightarrow> real \<times> real \<Rightarrow> bool" where
  "clockwise p1 p2 p3 =
     (let val = fl_sub (fl_mul (fl_sub (Fin (snd p2)) (Fin (snd p1)))
                               (fl_sub (Fin (fst p3)) (Fin (fst p2))))
                       (fl_mul (fl_sub (Fin (fst p2)) (Fin (fst p1)))
                               (fl_sub (Fin (snd p3)) (Fin (snd p2))))
      in fl_is_zero val \<or> fl_pos val)"

text \<open>
  The words of the specification: difference of two points and the planar cross product of
  two vectors. These two follow the specification, not the source.
\<close>

definition vec_diff :: "real \<times> real \<Rightarrow> real \<times> real \<Rightarrow> real \<times> real" where
  "vec_diff p q = (fst p - fst q, snd p - snd q)"

definition cross :: "real \<times> real \<Rightarrow> real \<times> real \<Rightarrow> real" where
  "cross u v = fst u * snd v - snd u * fst v"

subsection \<open>Tables of the run\<close>

text \<open>
  The dict \<open>status\<close> is an association list read through \<open>map_of\<close> and written with
  \<open>AList.update\<close> (an existing key keeps its place, a new key goes to the end). The dict
  \<open>vlinks\<close> maps a link name to a set of joint indices, kept as the list of its members
  in the order of insertion. A set is iterated in the order of its hash table, which the
  language leaves open: the model takes the iteration order as the parameter
  \<open>set_order\<close>, applied to the members in insertion order.
\<close>

type_synonym status_t = "(nat \<times> bool) list"

type_synonym vlinks_t = "(string \<times> nat list) list"

definition dict_len :: "('k \<times> 'v) list \<Rightarrow> nat" where
  "dict_len d = length (remdups (map fst d))"

definition set_add :: "nat \<Rightarrow> nat list \<Rightarrow> nat list" where
  "set_add n ns = (if n \<in> set ns then ns else ns @ [n])"

definition is_all_lock :: "status_t \<Rightarrow> bool" where
  "is_all_lock status = list_all (\<lambda>nd. map_of status nd \<noteq> Some False) (map fst status)"

text \<open>A \<open>for\<close> loop whose body may raise: the first error ends the loop.\<close>

fun fold_err :: "('a \<Rightarrow> 's \<Rightarrow> error + 's) \<Rightarrow> 'a list \<Rightarrow> 's \<Rightarrow> error + 's" where
  "fold_err f [] s = Inr s"
| "fold_err f (x # xs) s = (case f x s of Inl e \<Rightarrow> Inl e | Inr s' \<Rightarrow> fold_err f xs s')"

text \<open>
  A generator, run to its end: the values it yields and the exception that ends it, if any.
  \<open>next\<close> takes the first value; on an exhausted generator it raises the stored exception or
  \<open>StopIteration\<close>. A \<open>raise StopIteration\<close> in the body of a generator ends it (the
  behaviour before PEP 479, which the source relies on).
\<close>

type_synonym gen = "nat list \<times> error option"

datatype fetched = Got nat gen | Stop | Raised error

definition next_of :: "gen \<Rightarrow> fetched" where
  "next_of g =
     (case fst g of
        a # rest \<Rightarrow> Got a (rest, snd g)
      | [] \<Rightarrow> (case snd g of Some e \<Rightarrow> Raised e | None \<Rightarrow> Stop))"

subsection \<open>Preprocessing\<close>

definition link_step :: "nat \<Rightarrow> VPoint \<Rightarrow> string \<Rightarrow> status_t \<times> vlinks_t \<Rightarrow> status_t \<times> vlinks_t" where
  "link_step nd vpoint link sv =
     (case sv of (status, vlinks) \<Rightarrow>
        ((if link = FRAME \<and> jtype vpoint = R then AList.update nd True status else status),
         (case map_of vlinks link of
            None \<Rightarrow> AList.update link [nd] vlinks
          | Some ns \<Rightarrow> AList.update link (set_add nd ns) vlinks)))"

definition joint_step :: "nat \<times> VPoint \<Rightarrow> status_t \<times> vlinks_t \<Rightarrow> status_t \<times> vlinks_t" where
  "joint_step nv sv =
     (case nv of (nd, vpoint) \<Rightarrow>
      case sv of (status, vlinks) \<Rightarrow>
        if links vpoint \<noteq> [] then
          fold (link_step nd vpoint) (links vpoint) (AList.update nd False status, vlinks)
        else (AList.update nd True (AList.update nd False status), vlinks))"

definition init_tables :: "VPoint list \<Rightarrow> status_t \<Rightarrow> status_t \<times> vlinks_t" where
  "init_tables vpoints status = fold joint_step (enumerate 0 vpoints) (status, [])"

definition promote_node :: "nat \<Rightarrow> VPoint \<Rightarrow> nat \<Rightarrow> VPoint list \<Rightarrow> error + VPoint list" where
  "promote_node base vpoint nd vpoints =
     (if nd < length vpoints then
        (if nd = base \<or> jtype (vpoints ! nd) \<noteq> R then Inr vpoints
         else Inr (vpoints[nd := c_slider_joint
                     (hd (links vpoint) #
                        filter (\<lambda>l. l \<notin> set (links vpoint)) (links (vpoints ! nd)))
                     RP (angle vpoint) (vx (vpoints ! nd)) (vy (vpoints ! nd))]))
      else Inl IndexError)"

definition promote_link ::
  "(nat list \<Rightarrow> nat list) \<Rightarrow> vlinks_t \<Rightarrow> nat \<Rightarrow> VPoint \<Rightarrow> string \<Rightarrow> VPoint list
     \<Rightarrow> error + VPoint list" where
  "promote_link set_order vlinks base vpoint link vpoints =
     (case map_of vlinks link of
        None \<Rightarrow> Inl KeyError
      | Some ns \<Rightarrow> fold_err (promote_node base vpoint) (set_order ns) vpoints)"

definition promote_base ::
  "(nat list \<Rightarrow> nat list) \<Rightarrow> vlinks_t \<Rightarrow> nat \<Rightarrow> VPoint list \<Rightarrow> error + VPoint list" where
  "promote_base set_order vlinks base vpoints =
     (if base < length vpoints then
        (if jtype (vpoints ! base) \<noteq> P \<or> \<not> grounded (vpoints ! base) then Inr vpoints
         else fold_err (promote_link set_order vlinks base (vpoints ! base))
                (tl (links (vpoints ! base))) vpoints)
      else Inl IndexError)"

definition promote_all ::
  "(nat list \<Rightarrow> nat list) \<Rightarrow> vlinks_t \<Rightarrow> VPoint list \<Rightarrow> error + VPoint list" where
  "promote_all set_order vlinks vpoints =
     fold_err (promote_base set_order vlinks) [0 ..< length vpoints] vpoints"

definition positions :: "VPoint list \<Rightarrow> (real \<times> real) list" where
  "positions vpoints = map (\<lambda>v. if jtype v = R then c_0 v else c_1 v) vpoints"

subsection \<open>State of the search\<close>

record tstate =
  st_status :: status_t
  st_exprs :: "Expr list"
  st_link_symbol :: nat
  st_angle_symbol :: nat
  st_node :: nat
  st_skip_times :: nat

record tenv =
  env_vpoints :: "VPoint list"
  env_vlinks :: vlinks_t
  env_pos :: "(real \<times> real) list"
  env_inputs :: "(nat \<times> nat) list"
  env_around :: nat

definition emit_pla :: "nat \<Rightarrow> nat \<Rightarrow> tstate \<Rightarrow> tstate" where
  "emit_pla base nd s =
     s\<lparr> st_exprs := add_pla (st_exprs s) (P_LABEL, base) (L_LABEL, st_link_symbol s)
                      (A_LABEL, st_angle_symbol s) (P_LABEL, nd),
        st_status := AList.update nd True (st_status s),
        st_link_symbol := st_link_symbol s + 1,
        st_angle_symbol := st_angle_symbol s + 1 \<rparr>"

definition input_step :: "nat \<times> nat \<Rightarrow> tstate \<Rightarrow> error + tstate" where
  "input_step bn s =
     (case bn of (base, nd) \<Rightarrow>
        (case map_of (st_status s) base of
           None \<Rightarrow> Inl KeyError
         | Some solved \<Rightarrow> if solved then Inr (emit_pla base nd s) else Inr s))"

definition no_progress :: "tstate \<Rightarrow> tstate" where
  "no_progress s = s\<lparr> st_skip_times := st_skip_times s + 1 \<rparr>"

subsection \<open>Friends\<close>

fun scan_friends :: "status_t \<Rightarrow> (nat \<Rightarrow> bool) \<Rightarrow> nat list \<Rightarrow> gen" where
  "scan_friends status keep [] = ([], None)"
| "scan_friends status keep (friend # rest) =
     (case map_of status friend of
        None \<Rightarrow> ([], Some KeyError)
      | Some solved \<Rightarrow>
          (if solved \<and> keep friend
           then (friend # fst (scan_friends status keep rest), snd (scan_friends status keep rest))
           else scan_friends status keep rest))"

fun reliable_links ::
  "(nat list \<Rightarrow> nat list) \<Rightarrow> nat \<Rightarrow> vlinks_t \<Rightarrow> status_t \<Rightarrow> string list \<Rightarrow> gen" where
  "reliable_links set_order nd vlinks status [] = ([], None)"
| "reliable_links set_order nd vlinks status (link # rest) =
     (case map_of vlinks link of
        None \<Rightarrow> ([], Some KeyError)
      | Some ns \<Rightarrow>
          if length ns < 2 then reliable_links set_order nd vlinks status rest
          else
            (case scan_friends status (\<lambda>friend. friend \<noteq> nd) (set_order ns) of
               (found, Some e) \<Rightarrow> (found, Some e)
             | (found, None) \<Rightarrow>
                 (found @ fst (reliable_links set_order nd vlinks status rest),
                  snd (reliable_links set_order nd vlinks status rest))))"

definition get_reliable_friend ::
  "(nat list \<Rightarrow> nat list) \<Rightarrow> nat \<Rightarrow> VPoint list \<Rightarrow> vlinks_t \<Rightarrow> status_t \<Rightarrow> gen" where
  "get_reliable_friend set_order nd vpoints vlinks status =
     reliable_links set_order nd vlinks status (links (vpoints ! nd))"

definition get_not_base_friend ::
  "(nat list \<Rightarrow> nat list) \<Rightarrow> nat \<Rightarrow> VPoint list \<Rightarrow> vlinks_t \<Rightarrow> status_t \<Rightarrow> gen" where
  "get_not_base_friend set_order nd vpoints vlinks status =
     (if length (links (vpoints ! nd)) < 2 then ([], None)
      else
        (case map_of vlinks (links (vpoints ! nd) ! 1) of
           None \<Rightarrow> ([], Some KeyError)
         | Some ns \<Rightarrow> scan_friends status (\<lambda>friend. True) (set_order ns)))"

definition get_base_friend ::
  "(nat list \<Rightarrow> nat list) \<Rightarrow> nat \<Rightarrow> VPoint list \<Rightarrow> vlinks_t \<Rightarrow> status_t \<Rightarrow> gen" where
  "get_base_friend set_order nd vpoints vlinks status =
     (if length (links (vpoints ! nd)) < 1 then ([], None)
      else
        (case map_of vlinks (hd (links (vpoints ! nd))) of
           None \<Rightarrow> ([], Some KeyError)
         | Some ns \<Rightarrow> (set_order ns, None)))"

definition get_input_base :: "nat \<Rightarrow> (nat \<times> nat) list \<Rightarrow> nat option" where
  "get_input_base nd inputs =
     (case filter (\<lambda>bn. snd bn = nd) inputs of [] \<Rightarrow> None | bn # rest \<Rightarrow> Some (fst bn))"

subsection \<open>One visit of an unsolved joint\<close>

definition r_step ::
  "(nat list \<Rightarrow> nat list) \<Rightarrow> tenv \<Rightarrow> tstate \<Rightarrow> error + tstate" where
  "r_step set_order env s =
     (let nd = st_node s in
      if nd \<in> set (map snd (env_inputs env)) then
        (case get_input_base nd (env_inputs env) of
           None \<Rightarrow> Inl KeyError
         | Some base \<Rightarrow>
             (case map_of (st_status s) base of
                None \<Rightarrow> Inl KeyError
              | Some solved \<Rightarrow>
                  if solved then Inr (emit_pla base nd s) else Inr (no_progress s)))
      else
        (case next_of (get_reliable_friend set_order nd (env_vpoints env) (env_vlinks env)
                         (st_status s)) of
           Stop \<Rightarrow> Inr (no_progress s)
         | Raised e \<Rightarrow> Inl e
         | Got fa fi \<Rightarrow>
             (case next_of fi of
                Stop \<Rightarrow> Inr (no_progress s)
              | Raised e \<Rightarrow> Inl e
              | Got fb fi' \<Rightarrow>
                  if fa < length (env_pos env) \<and> fb < length (env_pos env) then
                    (let swap = \<not> clockwise (env_pos env ! fa) (env_pos env ! nd) (env_pos env ! fb);
                         fa' = (if swap then fb else fa);
                         fb' = (if swap then fa else fb)
                     in Inr (s\<lparr> st_exprs := add_pllp (st_exprs s) (P_LABEL, fa')
                                   (L_LABEL, st_link_symbol s) (L_LABEL, st_link_symbol s + 1)
                                   (P_LABEL, fb') (P_LABEL, nd),
                                 st_status := AList.update nd True (st_status s),
                                 st_link_symbol := st_link_symbol s + 2,
                                 st_skip_times := 0 \<rparr>))
                  else Inl IndexError)))"

definition pxy_friend :: "nat \<Rightarrow> nat \<Rightarrow> tstate \<Rightarrow> error + tstate" where
  "pxy_friend nd fb s =
     (case map_of (st_status s) fb of
        None \<Rightarrow> Inl KeyError
      | Some solved \<Rightarrow>
          if solved then Inr s
          else Inr (s\<lparr> st_exprs := add_pxy (st_exprs s) (P_LABEL, nd)
                          (L_LABEL, st_link_symbol s) (L_LABEL, st_link_symbol s + 1)
                          (P_LABEL, fb),
                        st_status := AList.update fb True (st_status s),
                        st_link_symbol := st_link_symbol s + 2 \<rparr>))"

definition pxy_link ::
  "(nat list \<Rightarrow> nat list) \<Rightarrow> tenv \<Rightarrow> nat \<Rightarrow> string \<Rightarrow> tstate \<Rightarrow> error + tstate" where
  "pxy_link set_order env nd link s =
     (case map_of (env_vlinks env) link of
        None \<Rightarrow> Inl KeyError
      | Some ns \<Rightarrow> fold_err (pxy_friend nd) (set_order ns) s)"

definition p_step ::
  "(nat list \<Rightarrow> nat list) \<Rightarrow> tenv \<Rightarrow> tstate \<Rightarrow> error + tstate" where
  "p_step set_order env s =
     (let nd = st_node s; v = env_vpoints env ! nd in
      if pin_grounded v \<or> \<not> grounded v \<or> has_offset v then Inr (no_progress s)
      else
        (case next_of (get_not_base_friend set_order nd (env_vpoints env) (env_vlinks env)
                         (st_status s)) of
           Stop \<Rightarrow> Inr (no_progress s)
         | Raised e \<Rightarrow> Inl e
         | Got fa fi \<Rightarrow>
             (case fold_err (pxy_link set_order env nd) (tl (links v))
                     (s\<lparr> st_exprs := add_pxy (st_exprs s) (P_LABEL, fa)
                            (L_LABEL, st_link_symbol s) (L_LABEL, st_link_symbol s + 1)
                            (P_LABEL, nd),
                          st_status := AList.update nd True (st_status s),
                          st_link_symbol := st_link_symbol s + 2 \<rparr>) of
                Inl e \<Rightarrow> Inl e
              | Inr s' \<Rightarrow> Inr (s'\<lparr> st_skip_times := 0 \<rparr>))))"

text \<open>
  The RP branch. The block under the second test \<open>if not vpoints[node].grounded()\<close> is kept
  as the source has it, although the first test of the same condition has already left.
  The slot point \<open>tmp\<close> is computed over the reals, with the exact \<open>pi\<close>, \<open>cos\<close> and
  \<open>sin\<close>; it only enters the orientation test, which decides the order of two operands.
\<close>

definition rp_slot_pllp ::
  "tenv \<Rightarrow> nat \<Rightarrow> real \<times> real \<Rightarrow> nat \<Rightarrow> gen \<Rightarrow> tstate \<Rightarrow> (error + (nat \<times> tstate)) option" where
  "rp_slot_pllp env nd tmp fb fi s =
     (case next_of fi of
        Stop \<Rightarrow> None
      | Raised e \<Rightarrow> Some (Inl e)
      | Got fd fi' \<Rightarrow>
          if fb < length (env_pos env) \<and> fd < length (env_pos env) then
            (let swap = \<not> clockwise (env_pos env ! fb) tmp (env_pos env ! fd);
                 fb' = (if swap then fd else fb);
                 fd' = (if swap then fb else fd)
             in Some (Inr (fb', s\<lparr> st_exprs := add_pllp (st_exprs s) (P_LABEL, fb')
                                      (L_LABEL, st_link_symbol s) (L_LABEL, st_link_symbol s + 1)
                                      (P_LABEL, fd') (P_LABEL, nd),
                                    st_link_symbol := st_link_symbol s + 2 \<rparr>)))
          else Some (Inl IndexError))"

definition rp_emit :: "tenv \<Rightarrow> nat \<Rightarrow> real \<times> real \<Rightarrow> nat \<Rightarrow> nat \<Rightarrow> tstate \<Rightarrow> error + tstate" where
  "rp_emit env nd tmp fa fb s =
     (if fb < length (env_pos env) \<and> fa < length (env_pos env) then
        (let swap = \<not> clockwise (env_pos env ! fb) tmp (env_pos env ! nd);
             fb' = (if swap then nd else fb);
             fc' = (if swap then fb else nd)
         in Inr (s\<lparr> st_exprs :=
                       add_plpp
                         (add_pllp (st_exprs s) (P_LABEL, fb') (L_LABEL, st_link_symbol s)
                            (L_LABEL, st_link_symbol s + 1) (P_LABEL, fc') (S_LABEL, nd))
                         (P_LABEL, fa) (L_LABEL, st_link_symbol s + 2) (P_LABEL, nd)
                         (S_LABEL, nd) (P_LABEL, nd)
                         ((fst (env_pos env ! fa) - fst (env_pos env ! nd) > 0)
                            \<noteq> (angle (env_vpoints env ! nd) > 90)),
                     st_status := AList.update nd True (st_status s),
                     st_link_symbol := st_link_symbol s + 3,
                     st_skip_times := 0 \<rparr>))
      else Inl IndexError)"

definition rp_step ::
  "(nat list \<Rightarrow> nat list) \<Rightarrow> tenv \<Rightarrow> tstate \<Rightarrow> error + tstate" where
  "rp_step set_order env s =
     (let nd = st_node s; v = env_vpoints env ! nd;
          ang = angle v / 180 * pi;
          tmp = (fst (env_pos env ! nd) + cos ang, snd (env_pos env ! nd) + sin ang)
      in
      if pin_grounded v \<or> \<not> grounded v \<or> has_offset v then Inr (no_progress s)
      else
        (case next_of (get_not_base_friend set_order nd (env_vpoints env) (env_vlinks env)
                         (st_status s)) of
           Stop \<Rightarrow> Inr (no_progress s)
         | Raised e \<Rightarrow> Inl e
         | Got fa unused \<Rightarrow>
             (case next_of (get_base_friend set_order nd (env_vpoints env) (env_vlinks env)
                              (st_status s)) of
                Stop \<Rightarrow> Inr (no_progress s)
              | Raised e \<Rightarrow> Inl e
              | Got fb fi \<Rightarrow>
                  if \<not> grounded v then
                    (case rp_slot_pllp env nd tmp fb fi s of
                       None \<Rightarrow> Inr (no_progress s)
                     | Some (Inl e) \<Rightarrow> Inl e
                     | Some (Inr (fb', s')) \<Rightarrow> rp_emit env nd tmp fa fb' s')
                  else rp_emit env nd tmp fa fb s)))"

definition visit ::
  "(nat list \<Rightarrow> nat list) \<Rightarrow> tenv \<Rightarrow> tstate \<Rightarrow> error + tstate" where
  "visit set_order env s =
     (if st_node s < length (env_vpoints env) then
        (case jtype (env_vpoints env ! st_node s) of
           R \<Rightarrow> r_step set_order env s
         | P \<Rightarrow> p_step set_order env s
         | RP \<Rightarrow> rp_step set_order env s)
      else Inl IndexError)"

subsection \<open>The sweep\<close>

datatype step = Exit | Raise error | Next tstate

definition loop_step ::
  "(nat list \<Rightarrow> nat list) \<Rightarrow> tenv \<Rightarrow> tstate \<Rightarrow> step" where
  "loop_step set_order env s =
     (if is_all_lock (st_status s) then Exit
      else if map_of (st_status s) (st_node s) = None then Next (s\<lparr> st_node := 0 \<rparr>)
      else if env_around env \<le> st_skip_times s then Exit
      else if map_of (st_status s) (st_node s) = Some True then
        Next (s\<lparr> st_node := st_node s + 1, st_skip_times := st_skip_times s + 1 \<rparr>)
      else
        (case visit set_order env s of
           Inl e \<Rightarrow> Raise e
         | Inr s' \<Rightarrow> Next (s'\<lparr> st_node := st_node s' + 1 \<rparr>)))"

text \<open>The \<open>while\<close> loop. The value \<open>None\<close> stands for a loop that never ends.\<close>

partial_function (option) main_loop ::
  "(nat list \<Rightarrow> nat list) \<Rightarrow> tenv \<Rightarrow> tstate \<Rightarrow> (error + tstate) option" where
  "main_loop set_order env s =
     (case loop_step set_order env s of
        Exit \<Rightarrow> Some (Inr s)
      | Raise e \<Rightarrow> Some (Inl e)
      | Next s' \<Rightarrow> main_loop set_order env s')"

subsection \<open>The whole function\<close>

text \<open>
  The part of \<open>t_config\<close> before the \<open>while\<close> loop, for a joint list and an input list
  that are not empty: the tables, the promotion of the friends of grounded P joints, the
  positions, and the constructions of the input pairs.
\<close>

definition t_config_setup ::
  "(nat list \<Rightarrow> nat list) \<Rightarrow> VPoint list \<Rightarrow> (nat \<times> nat) list \<Rightarrow> status_t
     \<Rightarrow> error + tenv \<times> tstate" where
  "t_config_setup set_order vps inputs status =
     (case promote_all set_order (snd (init_tables vps status)) vps of
        Inl e \<Rightarrow> Inl e
      | Inr vpoints \<Rightarrow>
          (case fold_err input_step inputs
                  \<lparr> st_status = fst (init_tables vps status), st_exprs = [],
                    st_link_symbol = 0, st_angle_symbol = 0, st_node = 0,
                    st_skip_times = 0 \<rparr> of
             Inl e \<Rightarrow> Inl e
           | Inr s1 \<Rightarrow>
               Inr (\<lparr> env_vpoints = vpoints, env_vlinks = snd (init_tables vps status),
                       env_pos = positions vpoints, env_inputs = inputs,
                       env_around = dict_len (st_status s1) \<rparr>, s1)))"

text \<open>
  \<open>t_config\<close> returns the stack; the dict \<open>status\<close> is changed in place, so the model
  returns it beside the stack. An exception is the value \<open>Inl\<close>.
\<close>

definition t_config ::
  "(nat list \<Rightarrow> nat list) \<Rightarrow> VPoint list \<Rightarrow> (nat \<times> nat) list option \<Rightarrow> status_t option
     \<Rightarrow> (error + Expr list \<times> status_t) option" where
  "t_config set_order vps inputs_arg status_arg =
     (let inputs = (case inputs_arg of None \<Rightarrow> [] | Some given \<Rightarrow> given);
          status = (case status_arg of None \<Rightarrow> [] | Some given \<Rightarrow> given)
      in
      if vps = [] then Some (Inr ([], status))
      else if inputs = [] then Some (Inr ([], status))
      else
        (case t_config_setup set_order vps inputs status of
           Inl e \<Rightarrow> Some (Inl e)
         | Inr (env, s1) \<Rightarrow>
             (case main_loop set_order env s1 of
                None \<Rightarrow> None
              | Some (Inl e) \<Rightarrow> Some (Inl e)
              | Some (Inr s2) \<Rightarrow> Some (Inr (st_exprs s2, st_status s2)))))"

section \<open>Vocabulary of the properties\<close>

text \<open>
  The target symbol of a construction, the joints named by its operand point symbols, and
  the operands that \<open>t_config\<close> takes from a test of \<open>status\<close>: all point operands of PLA,
  PLAP, PXY and of a PLLP that places a joint, and the first operand of a PLPP. The PLLP
  that places the synthetic slot point \<open>S\<close> of an RP joint has none.
\<close>

fun target :: "Expr \<Rightarrow> sym" where
  "target (PLA c1 v1 v2 t) = t"
| "target (PLAP c1 v1 v2 c2 t) = t"
| "target (PLLP c1 v1 v2 c2 t) = t"
| "target (PLPP c1 v1 c2 c3 t op) = t"
| "target (PXY c1 v1 v2 t) = t"

definition point_index :: "sym \<Rightarrow> nat list" where
  "point_index p = (if fst p = P_LABEL then [snd p] else [])"

fun point_operands :: "Expr \<Rightarrow> nat list" where
  "point_operands (PLA c1 v1 v2 t) = point_index c1"
| "point_operands (PLAP c1 v1 v2 c2 t) = point_index c1 @ point_index c2"
| "point_operands (PLLP c1 v1 v2 c2 t) = point_index c1 @ point_index c2"
| "point_operands (PLPP c1 v1 c2 c3 t op) = point_index c1 @ point_index c2 @ point_index c3"
| "point_operands (PXY c1 v1 v2 t) = point_index c1"

fun checked_operands :: "Expr \<Rightarrow> nat list" where
  "checked_operands (PLA c1 v1 v2 t) = point_index c1"
| "checked_operands (PLAP c1 v1 v2 c2 t) = point_index c1 @ point_index c2"
| "checked_operands (PLLP c1 v1 v2 c2 t) =
     (if fst t = S_LABEL then [] else point_index c1 @ point_index c2)"
| "checked_operands (PLPP c1 v1 c2 c3 t op) = point_index c1"
| "checked_operands (PXY c1 v1 v2 t) = point_index c1"

text \<open>
  Every operand (as \<open>ops\<close> lists them) of every construction of a stack is known beforehand
  (\<open>known\<close>) or is the target point of an earlier construction of the stack.
\<close>

definition operands_known :: "(nat \<Rightarrow> bool) \<Rightarrow> (Expr \<Rightarrow> nat list) \<Rightarrow> Expr list \<Rightarrow> bool" where
  "operands_known known ops es \<longleftrightarrow>
     (\<forall>i < length es. \<forall>m \<in> set (ops (es ! i)).
        known m \<or> (\<exists>j < i. target (es ! j) = (P_LABEL, m)))"

text \<open>
  The joints that are solved before any construction is emitted: a joint of the list that
  has no links or is an R joint on the ground link, and an index behind the end of the
  list that the caller's \<open>status\<close> maps to true.
\<close>

definition initially_solved :: "VPoint list \<Rightarrow> status_t \<Rightarrow> nat \<Rightarrow> bool" where
  "initially_solved vps status m =
     (if m < length vps
      then links (vps ! m) = [] \<or> (jtype (vps ! m) = R \<and> FRAME \<in> set (links (vps ! m)))
      else map_of status m = Some True)"

text \<open>The order in which the search only gains solved joints.\<close>

definition advances :: "status_t \<Rightarrow> status_t \<Rightarrow> bool" where
  "advances st st' \<longleftrightarrow>
     (\<forall>k. map_of st k = Some True \<longrightarrow> map_of st' k = Some True) \<and>
     (\<forall>k. map_of st' k = Some False \<longrightarrow> map_of st k = Some False) \<and>
     (\<forall>k. map_of st k \<noteq> None \<longrightarrow> map_of st' k \<noteq> None)"

definition unsolved :: "status_t \<Rightarrow> nat set" where
  "unsolved st = {k. map_of st k = Some False}"

text \<open>
  The order in which the sweep descends: fewer unsolved joints, then fewer steps left
  before \<open>skip_times\<close> reaches \<open>around\<close>, then a \<open>node\<close> that is a key of \<open>status\<close>.
\<close>

definition sweep_order :: "tenv \<Rightarrow> (tstate \<times> tstate) set" where
  "sweep_order env =
     measures [\<lambda>s. card (unsolved (st_status s)),
               \<lambda>s. env_around env - st_skip_times s,
               \<lambda>s. if map_of (st_status s) (st_node s) = None then 1 else 0]"

text \<open>
  What holds of the stack and the status table between two steps of the search: the joint
  of every target is solved, every solved joint was known beforehand or is the target
  point of a construction, and the checked operands are known when they are used.
\<close>

definition stack_inv :: "(nat \<Rightarrow> bool) \<Rightarrow> tstate \<Rightarrow> bool" where
  "stack_inv known s \<longleftrightarrow>
     (\<forall>e \<in> set (st_exprs s). map_of (st_status s) (snd (target e)) = Some True) \<and>
     (\<forall>m. map_of (st_status s) m = Some True \<longrightarrow>
          known m \<or> (\<exists>e \<in> set (st_exprs s). target e = (P_LABEL, m))) \<and>
     operands_known known checked_operands (st_exprs s)"

text \<open>
  A real number that \<open>round_double\<close> leaves as it is; a real number that is a finite
  binary64 value; a multiple of the smallest positive binary64 value; and the points for
  which the orientation test rounds nothing before its last subtraction: the four
  differences and the two products of \<open>_clockwise\<close> are binary64 values.
\<close>

definition representable :: "real \<Rightarrow> bool" where
  "representable a \<longleftrightarrow> round_double a = a"

definition binary64 :: "real \<Rightarrow> bool" where
  "binary64 a \<longleftrightarrow> round_binary64 a = Fin a"

definition on_grid :: "real \<Rightarrow> bool" where
  "on_grid r \<longleftrightarrow> (\<exists>k::int. r = 2 powr (- 1074) * of_int k)"

definition exact_orientation :: "real \<times> real \<Rightarrow> real \<times> real \<Rightarrow> real \<times> real \<Rightarrow> bool" where
  "exact_orientation p1 p2 p3 \<longleftrightarrow>
     binary64 (snd p2 - snd p1) \<and> binary64 (fst p3 - fst p2) \<and>
     binary64 (fst p2 - fst p1) \<and> binary64 (snd p3 - snd p2) \<and>
     binary64 ((snd p2 - snd p1) * (fst p3 - fst p2)) \<and>
     binary64 ((fst p2 - fst p1) * (snd p3 - snd p2))"

text \<open>A store whose dict 0 declares the one input pair \<open>(0, 1)\<close>, at angle 0.\<close>

definition one_input :: store where
  "one_input = (\<lambda>r. [])(0 := [((0, 1), 0)])"

text \<open>Example mechanisms: the four-bar linkage, and a crank that drives a grounded RP joint.\<close>

definition fourbar :: "VPoint list" where
  "fourbar =
     [c_r_joint [''ground'', ''L1''] 0 0, c_r_joint [''ground'', ''L3''] 90 0,
      c_r_joint [''L1'', ''L2''] 10 30, c_r_joint [''L2'', ''L3''] 70 30]"

definition crank_slider :: "VPoint list" where
  "crank_slider =
     [c_r_joint [''ground''] 0 0, c_r_joint [''ground'', ''L1''] 10 0,
      c_r_joint [''L1'', ''L2''] 10 30,
      c_slider_joint [''ground'', ''L2''] RP 0 70 0]"

text \<open>
  An open chain of three driven links: joint 0 on the ground, then the joints 3, 2 and 1,
  each driven from the joint before it.
\<close>

definition serial_arm :: "VPoint list" where
  "serial_arm =
     [c_r_joint [''ground'', ''L1''] 0 0, c_r_joint [''L3''] 30 0,
      c_r_joint [''L2'', ''L3''] 20 0, c_r_joint [''L1'', ''L2''] 10 0]"

text \<open>A chain whose last joint hangs on one link only: the search cannot place it.\<close>

definition dangling :: "VPoint list" where
  "dangling =
     [c_r_joint [''ground'', ''L1''] 0 0, c_r_joint [''L1'', ''L2''] 10 0,
      c_r_joint [''L2''] 20 0]"

section \<open>Properties\<close>

subsection \<open>Rounding to binary64\<close>

lemma round_half_even_bounds:
  "of_int \<lfloor>q\<rfloor> \<le> (of_int (round_half_even q) :: real) \<and> round_half_even q \<le> \<lfloor>q\<rfloor> + 1"
  by (auto simp: round_half_even_def Let_def)

lemma round_half_even_of_int: "round_half_even (of_int j) = j"
  by (simp add: round_half_even_def)

lemma binade_bounds:
  assumes "a \<noteq> 0"
  shows "2 powr of_int (binade a) \<le> \<bar>a\<bar> \<and> \<bar>a\<bar> < 2 powr of_int (binade a + 1)"
proof -
  have pos: "0 < \<bar>a\<bar>" using assms by simp
  have e: "2 powr (log 2 \<bar>a\<bar>) = \<bar>a\<bar>" using pos by simp
  have lo: "of_int \<lfloor>log 2 \<bar>a\<bar>\<rfloor> \<le> log 2 \<bar>a\<bar>" by (rule of_int_floor_le)
  have hi: "log 2 \<bar>a\<bar> < of_int (\<lfloor>log 2 \<bar>a\<bar>\<rfloor> + 1)" by linarith
  have "2 powr of_int \<lfloor>log 2 \<bar>a\<bar>\<rfloor> \<le> 2 powr (log 2 \<bar>a\<bar>)"
    using lo by (simp only: powr_le_cancel_iff) 
  moreover have "2 powr (log 2 \<bar>a\<bar>) < 2 powr of_int (\<lfloor>log 2 \<bar>a\<bar>\<rfloor> + 1)"
    using hi by (subst powr_less_cancel_iff) simp_all
  ultimately show ?thesis by (simp only: e binade_def)
qed

lemma binade_eq:
  assumes "2 powr of_int k \<le> \<bar>a\<bar>" and "\<bar>a\<bar> < 2 powr of_int (k + 1)"
  shows "binade a = k"
proof -
  have pos: "0 < \<bar>a\<bar>" using assms(1) by (rule less_le_trans [rotated]) simp
  then have nz: "a \<noteq> 0" by simp
  from binade_bounds [OF nz] assms
  have "(2::real) powr of_int (binade a) < 2 powr of_int (k + 1)"
    and "(2::real) powr of_int k < 2 powr of_int (binade a + 1)" by linarith+
  then have "of_int (binade a) < (of_int (k + 1) :: real)" and "of_int k < (of_int (binade a + 1) :: real)"
    by (simp_all only: powr_less_cancel_iff one_less_numeral_iff semiring_norm)
  then show ?thesis by linarith
qed

lemma scaled_bounds:
  assumes "a \<noteq> 0"
  shows "2 ^ 52 \<le> \<bar>a\<bar> / 2 powr of_int (binade a - 52) \<and> \<bar>a\<bar> / 2 powr of_int (binade a - 52) < 2 ^ 53"
proof -
  define u :: real where "u = 2 powr of_int (binade a - 52)"
  have u: "0 < u" by (simp add: u_def)
  have lo: "u * 2 ^ 52 = 2 powr of_int (binade a)"
  proof -
    have "(2::real) ^ 52 = 2 powr of_int 52" by (simp add: powr_realpow [symmetric])
    then have "u * 2 ^ 52 = 2 powr (of_int (binade a - 52) + of_int 52)"
      unfolding u_def by (simp only: powr_add)
    then show ?thesis by simp
  qed
  have hi: "u * 2 ^ 53 = 2 powr of_int (binade a + 1)"
  proof -
    have "(2::real) ^ 53 = 2 powr of_int 53" by (simp add: powr_realpow [symmetric])
    then have "u * 2 ^ 53 = 2 powr (of_int (binade a - 52) + of_int 53)"
      unfolding u_def by (simp only: powr_add)
    then show ?thesis by (simp add: add.commute)
  qed
  from binade_bounds [OF assms] have "u * 2 ^ 52 \<le> \<bar>a\<bar>" "\<bar>a\<bar> < u * 2 ^ 53"
    by (simp_all only: lo hi)
  then have "2 ^ 52 \<le> \<bar>a\<bar> / u" "\<bar>a\<bar> / u < 2 ^ 53"
    using u by (simp_all add: pos_le_divide_eq pos_divide_less_eq mult.commute)
  then show ?thesis by (simp only: u_def) 
qed

lemma round_double_pos:
  assumes "0 < a"
  shows "0 < round_double a"
proof -
  define u :: real where "u = 2 powr of_int (binade a - 52)"
  have u: "0 < u" by (simp add: u_def)
  have nz: "a \<noteq> 0" using assms by simp
  from scaled_bounds [OF nz] assms have "2 ^ 52 \<le> a / u" by (simp add: u_def)
  then have "(2::int) ^ 52 \<le> \<lfloor>a / u\<rfloor>" by (simp add: le_floor_iff)
  moreover have "\<lfloor>a / u\<rfloor> \<le> round_half_even (a / u)"
    using round_half_even_bounds [of "a / u"] by (simp only: of_int_le_iff)
  moreover have "(0::int) < 2 ^ 52" by simp
  ultimately have "0 < round_half_even (a / u)" by linarith
  then have "0 < u * of_int (round_half_even (a / u))" using u by simp
  then show ?thesis using nz by (simp add: round_double_def u_def)
qed

lemma round_double_neg:
  assumes "a < 0"
  shows "round_double a < 0"
proof -
  define u :: real where "u = 2 powr of_int (binade a - 52)"
  have u: "0 < u" by (simp add: u_def)
  have nz: "a \<noteq> 0" using assms by simp
  from scaled_bounds [OF nz] assms have "2 ^ 52 \<le> - a / u" by (simp add: u_def)
  then have "a / u \<le> - (2 ^ 52)" by simp
  then have "\<lfloor>a / u\<rfloor> \<le> - (2 ^ 52)" by (simp add: floor_le_iff)
  moreover have "round_half_even (a / u) \<le> \<lfloor>a / u\<rfloor> + 1"
    using round_half_even_bounds [of "a / u"] by simp
  moreover have "(1::int) < 2 ^ 52" by simp
  ultimately have "round_half_even (a / u) < 0" by linarith
  then have "u * of_int (round_half_even (a / u)) < 0" using u by (simp add: mult_less_0_iff)
  then show ?thesis using nz by (simp add: round_double_def u_def)
qed

lemma round_double_sign:
  "(0 \<le> round_double a \<longleftrightarrow> 0 \<le> a) \<and> (round_double a = 0 \<longleftrightarrow> a = 0)"
proof -
  consider "a < 0" | "a = 0" | "0 < a" by linarith
  then show ?thesis
  proof cases
    case 1 with round_double_neg [OF 1] show ?thesis by simp
  next
    case 2 then show ?thesis by (simp add: round_double_def)
  next
    case 3 with round_double_pos [OF 3] show ?thesis by simp
  qed
qed

lemma representable_scaled_int:
  assumes "\<bar>m\<bar> < 2 ^ 53"
  shows "representable (of_int m * 2 powr of_int e)"
proof (cases "m = 0")
  case True
  then show ?thesis by (simp add: representable_def round_double_def)
next
  case False
  define a :: real where "a = of_int m * 2 powr of_int e"
  have nz: "a \<noteq> 0" using False by (simp add: a_def)
  define k where "k = binade a"
  have "2 powr of_int k \<le> \<bar>a\<bar>" using binade_bounds [OF nz] by (simp add: k_def)
  also have "\<bar>a\<bar> = of_int \<bar>m\<bar> * 2 powr of_int e" by (simp add: a_def abs_mult)
  also have "\<dots> < 2 ^ 53 * 2 powr of_int e"
  proof -
    have "(of_int \<bar>m\<bar> :: real) < of_int (2 ^ 53)" using assms by (simp only: of_int_less_iff)
    then show ?thesis by simp
  qed
  also have "\<dots> = 2 powr of_int (53 + e)"
  proof -
    have "(2::real) ^ 53 = 2 powr of_int 53" by (simp add: powr_realpow [symmetric])
    then show ?thesis by (simp add: powr_add)
  qed
  finally have "2 powr of_int k < (2::real) powr of_int (53 + e)" .
  then have "of_int k < (of_int (53 + e) :: real)"
    by (simp only: powr_less_cancel_iff one_less_numeral_iff semiring_norm)
  then have n: "0 \<le> e - k + 52" by linarith
  define j where "j = nat (e - k + 52)"
  have j: "of_int (e - k + 52) = real j" using n by (simp add: j_def)
  have q: "a / 2 powr of_int (k - 52) = of_int (m * 2 ^ j)"
  proof -
    have "a / 2 powr of_int (k - 52) = of_int m * (2 powr of_int e / 2 powr of_int (k - 52))"
      by (simp add: a_def)
    also have "2 powr of_int e / 2 powr of_int (k - 52) = (2::real) powr of_int (e - k + 52)"
      by (simp add: powr_diff [symmetric] algebra_simps)
    also have "\<dots> = 2 ^ j" by (simp only: j powr_realpow zero_less_numeral)
    finally show ?thesis by simp
  qed
  have "round_double a = 2 powr of_int (k - 52) * of_int (round_half_even (a / 2 powr of_int (k - 52)))"
    using nz by (simp add: round_double_def k_def)
  also have "\<dots> = 2 powr of_int (k - 52) * (a / 2 powr of_int (k - 52))"
    by (simp only: q round_half_even_of_int)
  also have "\<dots> = a" by simp
  finally show ?thesis by (simp add: representable_def a_def)
qed

lemma representable_of_int: "\<bar>m\<bar> < 2 ^ 53 \<Longrightarrow> representable (of_int m)"
  using representable_scaled_int [of m 0] by simp

lemma round_double_numeral:
  "numeral w < (9007199254740992::int) \<Longrightarrow> round_double (numeral w) = numeral w"
  using representable_of_int [of "numeral w"] by (simp add: representable_def)

lemma tiny_le_one: "(2::real) powr (- 1022) \<le> 1"
proof -
  have "(2::real) powr (- 1022) \<le> 2 powr 0" by (intro powr_mono) simp_all
  then show ?thesis by simp
qed

lemma pow53_lt_huge: "(2::real) ^ 53 < 2 powr 1024"
proof -
  have "(2::real) ^ 53 = 2 powr 53" by (simp add: powr_realpow [symmetric])
  also have "\<dots> < 2 powr 1024" by (intro powr_less_mono) simp_all
  finally show ?thesis .
qed

lemma round_binary64_of_int:
  assumes "\<bar>m\<bar> < 2 ^ 53"
  shows "round_binary64 (of_int m) = Fin (of_int m)"
proof (cases "m = 0")
  case True
  have "\<bar>0::real\<bar> < 2 powr (- 1022)" by simp
  then show ?thesis using True by (simp add: round_binary64_def round_half_even_def)
next
  case False
  then have "1 \<le> \<bar>m\<bar>" by simp
  then have "(1::real) \<le> \<bar>of_int m\<bar>" by (metis of_int_1_le_iff of_int_abs)
  with tiny_le_one have big: "\<not> \<bar>of_int m :: real\<bar> < 2 powr (- 1022)" by linarith
  have rd: "round_double (of_int m) = of_int m"
    using representable_of_int [OF assms] by (simp add: representable_def)
  have "(of_int \<bar>m\<bar> :: real) < of_int (2 ^ 53)" using assms by (simp only: of_int_less_iff)
  then have "\<bar>of_int m :: real\<bar> < 2 ^ 53" by simp
  with pow53_lt_huge have "\<not> 2 powr 1024 \<le> \<bar>of_int m :: real\<bar>" by linarith
  then show ?thesis using big by (simp add: round_binary64_def rd)
qed

lemma round_binary64_numeral:
  "numeral w < (9007199254740992::int) \<Longrightarrow> round_binary64 (numeral w) = Fin (numeral w)"
  using round_binary64_of_int [of "numeral w"] by simp

lemma round_binary64_neg_numeral:
  "numeral w < (9007199254740992::int) \<Longrightarrow> round_binary64 (- numeral w) = Fin (- numeral w)"
  using round_binary64_of_int [of "- numeral w"] by simp

lemma round_binary64_0: "round_binary64 0 = Fin 0"
  using round_binary64_of_int [of 0] by simp

lemma round_binary64_1: "round_binary64 1 = Fin 1"
  using round_binary64_of_int [of 1] by simp

lemma round_binary64_m1: "round_binary64 (- 1) = Fin (- 1)"
  using round_binary64_of_int [of "- 1"] by simp

lemmas round_simps = round_binary64_numeral round_binary64_neg_numeral round_binary64_0
  round_binary64_1 round_binary64_m1

lemma round_double_binade:
  assumes "2 powr of_int k \<le> \<bar>a\<bar>" and "\<bar>a\<bar> < 2 powr of_int (k + 1)"
  shows "round_double a = 2 powr of_int (k - 52) * of_int (round_half_even (a / 2 powr of_int (k - 52)))"
proof -
  have "0 < \<bar>a\<bar>" using assms(1) by (rule less_le_trans [rotated]) simp
  then have "a \<noteq> 0" by simp
  then show ?thesis by (simp add: round_double_def binade_eq [OF assms])
qed

lemma pow2_53: "2 powr of_int 53 = (9007199254740992::real)"
proof -
  have "(2::real) powr of_int 53 = 2 ^ 53" by (simp add: powr_realpow [symmetric])
  then show ?thesis by simp
qed

lemma pow2_54: "2 powr of_int (53 + 1) = (18014398509481984::real)"
proof -
  have "(2::real) powr of_int (53 + 1) = 2 ^ 54" by (simp add: powr_realpow [symmetric])
  then show ?thesis by simp
qed

lemma round_double_995: "round_double 9007199254740995 = 9007199254740996"
proof -
  have lo: "2 powr of_int 53 \<le> \<bar>9007199254740995 :: real\<bar>" unfolding pow2_53 by simp
  have hi: "\<bar>9007199254740995 :: real\<bar> < 2 powr of_int (53 + 1)" unfolding pow2_54 by simp
  have "round_double 9007199254740995
        = 2 powr of_int (53 - 52) * of_int (round_half_even (9007199254740995 / 2 powr of_int (53 - 52)))"
    using lo hi by (rule round_double_binade)
  also have "\<dots> = 9007199254740996" by (simp add: round_half_even_def)
  finally show ?thesis .
qed

lemma round_double_997: "round_double 9007199254740997 = 9007199254740996"
proof -
  have lo: "2 powr of_int 53 \<le> \<bar>9007199254740997 :: real\<bar>" unfolding pow2_53 by simp
  have hi: "\<bar>9007199254740997 :: real\<bar> < 2 powr of_int (53 + 1)" unfolding pow2_54 by simp
  have "round_double 9007199254740997
        = 2 powr of_int (53 - 52) * of_int (round_half_even (9007199254740997 / 2 powr of_int (53 - 52)))"
    using lo hi by (rule round_double_binade)
  also have "\<dots> = 9007199254740996" by (simp add: round_half_even_def)
  finally show ?thesis .
qed

lemma round_double_996: "round_double 9007199254740996 = 9007199254740996"
  using representable_scaled_int [of 4503599627370498 1] by (simp add: representable_def)

lemma round_binary64_normal:
  assumes "1 \<le> \<bar>a\<bar>" and "\<bar>round_double a\<bar> < 2 ^ 54"
  shows "round_binary64 a = Fin (round_double a)"
proof -
  from tiny_le_one assms(1) have big: "\<not> \<bar>a\<bar> < 2 powr (- 1022)" by linarith
  have "(2::real) ^ 54 = 2 powr 54" by (simp add: powr_realpow [symmetric])
  also have "\<dots> < 2 powr 1024" by (intro powr_less_mono) simp_all
  finally have "\<not> 2 powr 1024 \<le> \<bar>round_double a\<bar>" using assms(2) by linarith
  then show ?thesis using big by (simp add: round_binary64_def)
qed

lemma round_binary64_995: "round_binary64 9007199254740995 = Fin 9007199254740996"
  using round_binary64_normal [of 9007199254740995] by (simp add: round_double_995)

lemma round_binary64_997: "round_binary64 9007199254740997 = Fin 9007199254740996"
  using round_binary64_normal [of 9007199254740997] by (simp add: round_double_997)

lemma round_binary64_996: "round_binary64 9007199254740996 = Fin 9007199254740996"
  using round_binary64_normal [of 9007199254740996] by (simp add: round_double_996)

lemma tiny_product:
  assumes "0 < t" and "t < 2 powr (- 1075)"
  shows "round_binary64 t = Fin 0" and "round_binary64 (- t) = Fin 0"
proof -
  have lt: "(2::real) powr (- 1075) < 2 powr (- 1022)" by (intro powr_less_mono) simp_all
  have "t < 2 powr (- 1022)" using assms(2) lt by linarith
  then have small: "\<bar>t\<bar> < 2 powr (- 1022)" "\<bar>- t\<bar> < 2 powr (- 1022)"
    using assms(1) by simp_all
  have h: "(2::real) powr (- 1075) = 2 powr (- 1074) * (1 / 2)"
  proof -
    have "(2::real) powr (- 1075) = 2 powr (- 1074 + - 1)" by simp
    also have "\<dots> = 2 powr (- 1074) * 2 powr (- 1)" by (simp only: powr_add)
    also have "(2::real) powr (- 1) = 1 / 2" by (simp add: powr_minus_divide)
    finally show ?thesis .
  qed
  have q: "0 < t / 2 powr (- 1074)" "t / 2 powr (- 1074) < 1 / 2"
  proof -
    show "0 < t / 2 powr (- 1074)" using assms(1) by simp
    have "t < 2 powr (- 1074) * (1 / 2)" using assms(2) h by simp
    then show "t / 2 powr (- 1074) < 1 / 2" by (simp add: pos_divide_less_eq mult.commute)
  qed
  define w where "w = t / 2 powr (- 1074)"
  have w: "0 < w" "w < 1 / 2" using q by (simp_all only: w_def)
  have mw: "- t / 2 powr (- 1074) = - w" by (simp add: w_def)
  have f: "\<lfloor>w\<rfloor> = 0" by (rule floor_unique) (use w in simp_all)
  have "round_half_even w = 0"
    unfolding round_half_even_def Let_def f using w by simp
  then show "round_binary64 t = Fin 0" using small by (simp add: round_binary64_def w_def)
  have f': "\<lfloor>- w\<rfloor> = - 1" by (rule floor_unique) (use w in simp_all)
  have "round_half_even (- w) = 0"
    unfolding round_half_even_def Let_def f' using w by simp
  then show "round_binary64 (- t) = Fin 0"
    using small by (simp only: round_binary64_def mw if_True) simp
qed

lemma round_binary64_pow2:
  assumes "- 1022 \<le> e" and "e < 1024"
  shows "round_binary64 (2 powr of_int e) = Fin (2 powr of_int e)"
proof -
  have rd: "round_double (2 powr of_int e) = 2 powr of_int e"
    using representable_scaled_int [of 1 e] by (simp add: representable_def)
  have "(2::real) powr (- 1022) \<le> 2 powr of_int e" using assms(1) by (intro powr_mono) simp_all
  then have big: "\<not> \<bar>2 powr of_int e :: real\<bar> < 2 powr (- 1022)" by simp
  have "(2::real) powr of_int e < 2 powr 1024" using assms(2) by (intro powr_less_mono) simp_all
  then have "\<not> 2 powr 1024 \<le> \<bar>2 powr of_int e :: real\<bar>" by simp
  then show ?thesis using big by (simp only: round_binary64_def rd if_False)
qed

lemma round_binary64_overflow:
  assumes "1024 \<le> e"
  shows "round_binary64 (2 powr of_int e) = Inf False"
proof -
  have rd: "round_double (2 powr of_int e) = 2 powr of_int e"
    using representable_scaled_int [of 1 e] by (simp add: representable_def)
  have "(2::real) powr (- 1022) \<le> 2 powr of_int e" using assms by (intro powr_mono) simp_all
  then have big: "\<not> \<bar>2 powr of_int e :: real\<bar> < 2 powr (- 1022)" by simp
  have "(2::real) powr 1024 \<le> 2 powr of_int e" using assms by (intro powr_mono) simp_all
  then have "2 powr 1024 \<le> \<bar>2 powr of_int e :: real\<bar>" by simp
  then show ?thesis using big by (simp add: round_binary64_def rd)
qed

lemma round_binary64_grid:
  assumes "round_binary64 a = Fin r"
  shows "on_grid r"
proof (cases "\<bar>a\<bar> < 2 powr (- 1022)")
  case True
  with assms show ?thesis by (auto simp: round_binary64_def on_grid_def)
next
  case False
  then have lo: "2 powr (- 1022) \<le> \<bar>a\<bar>" by simp
  have "0 < (2::real) powr (- 1022)" by simp
  with lo have "0 < \<bar>a\<bar>" by linarith
  then have nz: "a \<noteq> 0" by simp
  from assms False have r: "r = round_double a"
    by (auto simp: round_binary64_def split: if_splits)
  from binade_bounds [OF nz] lo have "(2::real) powr (- 1022) < 2 powr of_int (binade a + 1)"
    by linarith
  then have "- 1022 < (of_int (binade a + 1) :: real)"
    by (simp only: powr_less_cancel_iff one_less_numeral_iff semiring_norm)
  then have e: "0 \<le> binade a - 52 + 1074" by linarith
  define j where "j = nat (binade a - 52 + 1074)"
  have j: "of_int (binade a - 52 + 1074) = real j" using e by (simp add: j_def)
  have "(2::real) powr of_int (binade a - 52)
        = 2 powr (- 1074) * 2 powr of_int (binade a - 52 + 1074)"
    by (simp add: powr_add [symmetric])
  also have "2 powr of_int (binade a - 52 + 1074) = (2::real) ^ j"
    by (simp only: j powr_realpow zero_less_numeral)
  finally have u: "(2::real) powr of_int (binade a - 52) = 2 powr (- 1074) * 2 ^ j" .
  define n where "n = round_half_even (a / 2 powr of_int (binade a - 52))"
  have "round_double a = 2 powr of_int (binade a - 52) * of_int n"
    using nz by (simp add: round_double_def n_def)
  then have "r = 2 powr (- 1074) * 2 ^ j * of_int n" by (simp only: r u)
  then have "r = 2 powr (- 1074) * of_int (2 ^ j * n)" by simp
  then show ?thesis unfolding on_grid_def by blast
qed

lemma binary64_grid: "binary64 a \<Longrightarrow> on_grid a"
  unfolding binary64_def by (rule round_binary64_grid)

lemma round_binary64_sign:
  assumes "on_grid x"
  shows "fl_is_zero (round_binary64 x) \<or> fl_pos (round_binary64 x) \<longleftrightarrow> 0 \<le> x"
proof (cases "\<bar>x\<bar> < 2 powr (- 1022)")
  case True
  from assms obtain k :: int where k: "x = 2 powr (- 1074) * of_int k" unfolding on_grid_def by blast
  have "x / 2 powr (- 1074) = of_int k" by (simp add: k)
  then have "round_binary64 x = Fin x"
    using True by (simp add: round_binary64_def round_half_even_of_int k)
  then show ?thesis by auto
next
  case False
  show ?thesis
  proof (cases "2 powr 1024 \<le> \<bar>round_double x\<bar>")
    case True
    with False have "round_binary64 x = Inf (x < 0)" by (simp add: round_binary64_def)
    then show ?thesis by auto
  next
    case nb: False
    with False have "round_binary64 x = Fin (round_double x)" by (simp add: round_binary64_def)
    then show ?thesis using round_double_sign [of x] by auto
  qed
qed

lemma on_grid_diff:
  assumes "on_grid a" and "on_grid b"
  shows "on_grid (a - b)"
proof -
  from assms obtain k l :: int where "a = 2 powr (- 1074) * of_int k" "b = 2 powr (- 1074) * of_int l"
    unfolding on_grid_def by blast
  then have "a - b = 2 powr (- 1074) * of_int (k - l)" by (simp add: algebra_simps)
  then show ?thesis unfolding on_grid_def by blast
qed

lemma binary64_int_diff:
  assumes "\<bar>a\<bar> \<le> 2 ^ 25" and "\<bar>b\<bar> \<le> 2 ^ 25"
  shows "binary64 (of_int a - of_int b)"
proof -
  have "\<bar>a - b\<bar> \<le> 2 ^ 25 + 2 ^ 25" using assms by linarith
  then have "\<bar>a - b\<bar> < 2 ^ 53" by simp
  from round_binary64_of_int [OF this] show ?thesis by (simp add: binary64_def)
qed

lemma binary64_int_prod:
  assumes "\<bar>a\<bar> \<le> 2 ^ 25" and "\<bar>b\<bar> \<le> 2 ^ 25" and "\<bar>c\<bar> \<le> 2 ^ 25" and "\<bar>d\<bar> \<le> 2 ^ 25"
  shows "binary64 ((of_int a - of_int b) * (of_int c - of_int d))"
proof -
  have x: "\<bar>a - b\<bar> \<le> 2 ^ 26" using assms by simp
  have y: "\<bar>c - d\<bar> \<le> 2 ^ 26" using assms by simp
  have "\<bar>(a - b) * (c - d)\<bar> = \<bar>a - b\<bar> * \<bar>c - d\<bar>" by (rule abs_mult)
  also have "\<dots> \<le> 2 ^ 26 * 2 ^ 26" using x y by (intro mult_mono) simp_all
  finally have "\<bar>(a - b) * (c - d)\<bar> < 2 ^ 53" by simp
  from round_binary64_of_int [OF this] show ?thesis by (simp add: binary64_def)
qed

lemma exact_orientation_int:
  assumes "\<bar>x1\<bar> \<le> 2 ^ 25" "\<bar>y1\<bar> \<le> 2 ^ 25" "\<bar>x2\<bar> \<le> 2 ^ 25" "\<bar>y2\<bar> \<le> 2 ^ 25"
    "\<bar>x3\<bar> \<le> 2 ^ 25" "\<bar>y3\<bar> \<le> 2 ^ 25"
  shows "exact_orientation (of_int x1, of_int y1) (of_int x2, of_int y2) (of_int x3, of_int y3)"
  unfolding exact_orientation_def fst_conv snd_conv
  using assms by (intro conjI binary64_int_diff binary64_int_prod)

subsection \<open>Orientation test\<close>

text \<open>
  C3, as stated: \<open>_clockwise(c1, c2, c3)\<close> is true exactly when the cross product of
  \<open>c2 - c1\<close> and \<open>c3 - c2\<close> is at least zero. It fails for the left turn
  \<open>(0,0), (1,0), (1,1)\<close>: the cross product is \<open>1\<close>, and the source computes
  \<open>val = 0 * 0 - 1 * 1 = -1\<close> (nothing is rounded) and answers false.
\<close>

theorem clockwise_cross_counterexample:
  "\<not> (clockwise (0, 0) (1, 0) (1, 1)
        \<longleftrightarrow> 0 \<le> cross (vec_diff (1, 0) (0, 0)) (vec_diff (1, 1) (1, 0)))"
  by (simp add: clockwise_def cross_def vec_diff_def round_simps)

text \<open>
  The last subtraction never changes the answer: when the two rounded products are finite,
  the test compares them. Where nothing is rounded before the last subtraction, the test
  compares the two exact products.
\<close>

lemma clockwise_finite_products:
  assumes "fl_mul (fl_sub (Fin (snd p2)) (Fin (snd p1))) (fl_sub (Fin (fst p3)) (Fin (fst p2))) = Fin A"
    and "fl_mul (fl_sub (Fin (fst p2)) (Fin (fst p1))) (fl_sub (Fin (snd p3)) (Fin (snd p2))) = Fin B"
  shows "clockwise p1 p2 p3 \<longleftrightarrow> B \<le> A"
proof -
  have g: "\<And>u v r. fl_mul u v = Fin r \<Longrightarrow> on_grid r"
  proof -
    fix u v r assume h: "fl_mul u v = Fin r"
    show "on_grid r"
    proof (cases u)
      case (Fin x)
      show ?thesis
      proof (cases v)
        case (Fin y)
        with \<open>u = Fin x\<close> h show ?thesis by (simp add: round_binary64_grid)
      next
        case (Inf t) with \<open>u = Fin x\<close> h show ?thesis by (simp split: if_splits)
      next
        case NaN with \<open>u = Fin x\<close> h show ?thesis by simp
      qed
    next
      case (Inf s)
      with h show ?thesis by (cases v) (simp_all split: if_splits)
    next
      case NaN
      with h show ?thesis by simp
    qed
  qed
  have "on_grid (A - B)" using g [OF assms(1)] g [OF assms(2)] by (rule on_grid_diff)
  from round_binary64_sign [OF this]
  have "fl_is_zero (fl_sub (Fin A) (Fin B)) \<or> fl_pos (fl_sub (Fin A) (Fin B)) \<longleftrightarrow> B \<le> A"
    by simp
  then show ?thesis unfolding clockwise_def Let_def assms .
qed

lemma clockwise_exact:
  assumes "exact_orientation p1 p2 p3"
  shows "clockwise p1 p2 p3
         \<longleftrightarrow> (fst p2 - fst p1) * (snd p3 - snd p2) \<le> (snd p2 - snd p1) * (fst p3 - fst p2)"
proof -
  from assms have r: "round_binary64 (snd p2 - snd p1) = Fin (snd p2 - snd p1)"
    "round_binary64 (fst p3 - fst p2) = Fin (fst p3 - fst p2)"
    "round_binary64 (fst p2 - fst p1) = Fin (fst p2 - fst p1)"
    "round_binary64 (snd p3 - snd p2) = Fin (snd p3 - snd p2)"
    "round_binary64 ((snd p2 - snd p1) * (fst p3 - fst p2)) = Fin ((snd p2 - snd p1) * (fst p3 - fst p2))"
    "round_binary64 ((fst p2 - fst p1) * (snd p3 - snd p2)) = Fin ((fst p2 - fst p1) * (snd p3 - snd p2))"
    by (simp_all add: exact_orientation_def binary64_def)
  show ?thesis by (rule clockwise_finite_products) (simp_all add: r)
qed

text \<open>
  Rounding of the differences can change the answer: for \<open>(0,0), (1,1)\<close> and
  \<open>(9007199254740996, 9007199254740998)\<close> the differences \<open>9007199254740995\<close> and
  \<open>9007199254740997\<close> both round to \<open>9007199254740996\<close>, the value \<open>val\<close> is 0 and the
  test answers true, although the cross product is \<open>2\<close>, a left turn.
\<close>

lemma clockwise_rounding_example:
  "clockwise (0, 0) (1, 1) (9007199254740996, 9007199254740998) \<and>
   cross (vec_diff (1, 1) (0, 0)) (vec_diff (9007199254740996, 9007199254740998) (1, 1)) = 2"
  by (simp add: clockwise_def cross_def vec_diff_def round_binary64_995 round_binary64_997
      round_binary64_996 round_simps)

text \<open>
  So can the exponent range. A product below half of \<open>2^-1074\<close> is zero: the left turn
  \<open>(0,0), (2^-600,0), (2^-600,2^-600)\<close> counts as clockwise. Two products that are both
  infinite leave a NaN, which is neither zero nor above zero: the collinear points
  \<open>(0,0), (2^600,2^600), (2^601,2^601)\<close> do not count as clockwise.
\<close>

lemma clockwise_underflow_example:
  "clockwise (0, 0) (2 powr (- 600), 0) (2 powr (- 600), 2 powr (- 600)) \<and>
   0 < cross (vec_diff (2 powr (- 600), 0) (0, 0))
             (vec_diff (2 powr (- 600), 2 powr (- 600)) (2 powr (- 600), 0))"
proof -
  have t: "round_binary64 (2 powr (- 600)) = Fin (2 powr (- 600))"
    using round_binary64_pow2 [of "- 600"] by simp
  have "(2::real) powr (- 600) * 2 powr (- 600) = 2 powr (- 1200)"
    by (simp add: powr_add [symmetric])
  moreover have "(2::real) powr (- 1200) < 2 powr (- 1075)" by (intro powr_less_mono) simp_all
  ultimately have p: "round_binary64 (2 powr (- 600) * 2 powr (- 600)) = Fin 0"
    by (intro tiny_product) simp_all
  show ?thesis
    by (simp add: clockwise_def cross_def vec_diff_def round_binary64_0 t p)
qed

lemma clockwise_overflow_example:
  "\<not> clockwise (0, 0) (2 powr 600, 2 powr 600) (2 * 2 powr 600, 2 * 2 powr 600) \<and>
   cross (vec_diff (2 powr 600, 2 powr 600) (0, 0))
         (vec_diff (2 * 2 powr 600, 2 * 2 powr 600) (2 powr 600, 2 powr 600)) = 0"
proof -
  define M :: real where "M = 2 powr 600"
  have t: "round_binary64 M = Fin M"
    using round_binary64_pow2 [of 600] by (simp add: M_def)
  have "M * M = 2 powr of_int 1200"
    unfolding M_def by (simp add: powr_add [symmetric])
  then have p: "round_binary64 (M * M) = Inf False"
    using round_binary64_overflow [of 1200] by simp
  have "\<not> clockwise (0, 0) (M, M) (2 * M, 2 * M) \<and>
        cross (vec_diff (M, M) (0, 0)) (vec_diff (2 * M, 2 * M) (M, M)) = 0"
    by (simp add: clockwise_def cross_def vec_diff_def t p)
  then show ?thesis unfolding M_def .
qed

text \<open>
  C3, amended: \<open>_clockwise(c1, c2, c3)\<close> is true exactly when the rounded product
  \<open>(c2.x - c1.x) * (c3.y - c2.y)\<close> is at most the rounded product
  \<open>(c2.y - c1.y) * (c3.x - c2.x)\<close>, whenever both are finite; and for all points whose four
  differences and two products are computed without rounding, it is true exactly when the
  cross product of \<open>c2 - c1\<close> and \<open>c3 - c2\<close> is at most zero (a right turn, or collinear
  points).
\<close>

theorem clockwise_iff_cross_nonpos:
  "(\<forall>A B. fl_mul (fl_sub (Fin (snd p2)) (Fin (snd p1))) (fl_sub (Fin (fst p3)) (Fin (fst p2))) = Fin A \<and>
          fl_mul (fl_sub (Fin (fst p2)) (Fin (fst p1))) (fl_sub (Fin (snd p3)) (Fin (snd p2))) = Fin B
          \<longrightarrow> (clockwise p1 p2 p3 \<longleftrightarrow> B \<le> A)) \<and>
   (exact_orientation p1 p2 p3 \<longrightarrow>
      (clockwise p1 p2 p3 \<longleftrightarrow> cross (vec_diff p2 p1) (vec_diff p3 p2) \<le> 0))"
proof (intro conjI impI allI)
  fix A B
  assume "fl_mul (fl_sub (Fin (snd p2)) (Fin (snd p1))) (fl_sub (Fin (fst p3)) (Fin (fst p2))) = Fin A \<and>
          fl_mul (fl_sub (Fin (fst p2)) (Fin (fst p1))) (fl_sub (Fin (snd p3)) (Fin (snd p2))) = Fin B"
  then show "clockwise p1 p2 p3 \<longleftrightarrow> B \<le> A" using clockwise_finite_products by blast
next
  assume "exact_orientation p1 p2 p3"
  then have r: "round_binary64 (snd p2 - snd p1) = Fin (snd p2 - snd p1)"
    "round_binary64 (fst p3 - fst p2) = Fin (fst p3 - fst p2)"
    "round_binary64 (fst p2 - fst p1) = Fin (fst p2 - fst p1)"
    "round_binary64 (snd p3 - snd p2) = Fin (snd p3 - snd p2)"
    "round_binary64 ((snd p2 - snd p1) * (fst p3 - fst p2)) = Fin ((snd p2 - snd p1) * (fst p3 - fst p2))"
    "round_binary64 ((fst p2 - fst p1) * (snd p3 - snd p2)) = Fin ((fst p2 - fst p1) * (snd p3 - snd p2))"
    by (simp_all add: exact_orientation_def binary64_def)
  have "clockwise p1 p2 p3
        \<longleftrightarrow> (fst p2 - fst p1) * (snd p3 - snd p2) \<le> (snd p2 - snd p1) * (fst p3 - fst p2)"
    by (rule clockwise_finite_products) (simp_all add: r)
  then show "clockwise p1 p2 p3 \<longleftrightarrow> cross (vec_diff p2 p1) (vec_diff p3 p2) \<le> 0"
    by (simp add: cross_def vec_diff_def)
qed

theorem clockwise_iff_cross_nonpos_witness:
  "exact_orientation (0, 0) (1, 0) (1, 1) \<and> \<not> clockwise (0, 0) (1, 0) (1, 1) \<and>
   0 < cross (vec_diff (1, 0) (0, 0)) (vec_diff (1, 1) (1, 0)) \<and>
   exact_orientation (0, 0) (1, 1) (2, 0) \<and> clockwise (0, 0) (1, 1) (2, 0)"
  using clockwise_iff_cross_nonpos [of "(1, 0)" "(0, 0)" "(1, 1)"]
    clockwise_iff_cross_nonpos [of "(1, 1)" "(0, 0)" "(2, 0)"]
  by (simp add: exact_orientation_def binary64_def cross_def vec_diff_def round_simps)

text \<open>Integer coordinates of magnitude up to \<open>2^25\<close> are such points.\<close>

lemma clockwise_int_points:
  assumes "\<bar>x1\<bar> \<le> 2 ^ 25" "\<bar>y1\<bar> \<le> 2 ^ 25" "\<bar>x2\<bar> \<le> 2 ^ 25" "\<bar>y2\<bar> \<le> 2 ^ 25"
    "\<bar>x3\<bar> \<le> 2 ^ 25" "\<bar>y3\<bar> \<le> 2 ^ 25"
  shows "clockwise (of_int x1, of_int y1) (of_int x2, of_int y2) (of_int x3, of_int y3)
         \<longleftrightarrow> (x2 - x1) * (y3 - y2) - (y2 - y1) * (x3 - x2) \<le> 0"
proof -
  have "clockwise (of_int x1, of_int y1) (of_int x2, of_int y2) (of_int x3, of_int y3)
        \<longleftrightarrow> (of_int ((x2 - x1) * (y3 - y2)) :: real) \<le> of_int ((y2 - y1) * (x3 - x2))"
    using clockwise_exact [OF exact_orientation_int [OF assms]] by simp
  also have "\<dots> \<longleftrightarrow> (x2 - x1) * (y3 - y2) \<le> (y2 - y1) * (x3 - x2)"
    by (simp only: of_int_le_iff)
  finally show ?thesis by simp
qed

subsection \<open>Slot angle\<close>

lemma round_half_even_nonneg: "0 \<le> q \<Longrightarrow> 0 \<le> round_half_even q"
  by (auto simp: round_half_even_def Let_def)

lemma round_half_even_below:
  assumes "q < of_int n"
  shows "round_half_even q \<le> n"
proof -
  have "\<lfloor>q\<rfloor> < n" using assms by (simp add: floor_less_iff)
  then show ?thesis using round_half_even_bounds [of q] by linarith
qed

lemma binade_below:
  assumes "0 < a" and "a < 256"
  shows "binade a \<le> 7"
proof -
  have "log 2 a < log 2 256" using assms by simp
  moreover have "log 2 256 = 8"
  proof -
    have "(256::real) = 2 ^ 8" by simp
    then show ?thesis by (simp only: log_pow_cancel)
  qed
  ultimately have "log 2 a < 8" by simp
  then have "\<lfloor>log 2 a\<rfloor> < 8" by (simp add: floor_less_iff)
  then show ?thesis using assms by (simp add: binade_def)
qed

lemma round_double_range:
  assumes "0 < a" and "a < 180"
  shows "0 \<le> round_double a \<and> round_double a \<le> 180"
proof -
  define k where "k = binade a - 52"
  define u :: real where "u = 2 powr of_int k"
  have k: "k \<le> 0" using binade_below [of a] assms by (simp add: k_def)
  have u: "0 < u" by (simp add: u_def)
  have "u * 2 powr of_int (- k) = 1"
    unfolding u_def by (simp add: powr_add [symmetric])
  moreover have "2 powr of_int (- k) = (2::real) ^ nat (- k)"
    using k by (simp add: powr_realpow [symmetric])
  ultimately have inv: "u * 2 ^ nat (- k) = 1" by simp
  define n :: int where "n = 180 * 2 ^ nat (- k)"
  have n: "u * of_int n = 180" using inv by (simp add: n_def)
  have "a / u < of_int n"
  proof -
    have "a < u * of_int n" using assms(2) n by simp
    then show ?thesis using u by (simp add: pos_divide_less_eq mult.commute)
  qed
  then have hi: "round_half_even (a / u) \<le> n" by (rule round_half_even_below)
  have lo: "0 \<le> round_half_even (a / u)"
    using assms(1) u by (intro round_half_even_nonneg) simp
  have r: "round_double a = u * of_int (round_half_even (a / u))"
    using assms(1) by (simp add: round_double_def u_def k_def)
  have "u * of_int (round_half_even (a / u)) \<le> u * of_int n"
    using hi u by (simp add: mult_le_cancel_left_pos)
  then have "round_double a \<le> 180" by (simp add: r n)
  moreover have "0 \<le> round_double a" using lo u by (simp add: r)
  ultimately show ?thesis by simp
qed


lemma c_fmod_nonneg:
  assumes "0 \<le> a" and "0 < b"
  shows "0 \<le> c_fmod a b \<and> c_fmod a b < b"
proof -
  have q: "0 \<le> a / b" using assms by simp
  have lo: "of_int \<lfloor>a / b\<rfloor> \<le> a / b" by (rule of_int_floor_le)
  have hi: "a / b < of_int \<lfloor>a / b\<rfloor> + 1" by linarith
  have ab: "b * (a / b) = a" using assms(2) by simp
  have "b * of_int \<lfloor>a / b\<rfloor> \<le> b * (a / b)"
    using lo assms(2) by (simp only: mult_le_cancel_left_pos)
  then have A: "b * of_int \<lfloor>a / b\<rfloor> \<le> a" by (simp only: ab)
  have "b * (a / b) < b * (of_int \<lfloor>a / b\<rfloor> + 1)"
    using hi assms(2) by (simp only: mult_less_cancel_left_pos)
  then have B: "a < b * of_int \<lfloor>a / b\<rfloor> + b"
    by (simp only: ab distrib_left mult_1_right)
  have "c_fmod a b = a - b * of_int \<lfloor>a / b\<rfloor>"
    using q by (simp only: c_fmod_def if_True)
  then show ?thesis using A B by linarith
qed

lemma c_fmod_neg:
  assumes "a < 0" and "0 < b"
  shows "- b < c_fmod a b \<and> c_fmod a b \<le> 0"
proof -
  have q: "\<not> 0 \<le> a / b" using assms by (simp add: divide_less_0_iff not_le)
  have lo: "a / b \<le> of_int \<lceil>a / b\<rceil>" by (rule le_of_int_ceiling)
  have hi: "of_int \<lceil>a / b\<rceil> - 1 < a / b" by linarith
  have ab: "b * (a / b) = a" using assms(2) by simp
  have "b * (a / b) \<le> b * of_int \<lceil>a / b\<rceil>"
    using lo assms(2) by (simp only: mult_le_cancel_left_pos)
  then have A: "a \<le> b * of_int \<lceil>a / b\<rceil>" by (simp only: ab)
  have "b * (of_int \<lceil>a / b\<rceil> - 1) < b * (a / b)"
    using hi assms(2) by (simp only: mult_less_cancel_left_pos)
  then have B: "b * of_int \<lceil>a / b\<rceil> - b < a"
    by (simp only: ab right_diff_distrib mult_1_right)
  have "c_fmod a b = a - b * of_int \<lceil>a / b\<rceil>"
    using q by (simp only: c_fmod_def if_False)
  then show ?thesis using A B by linarith
qed

lemma py_mod_180_range: "0 \<le> py_mod a 180 \<and> py_mod a 180 \<le> 180"
proof (cases "0 \<le> a")
  case True
  then show ?thesis
    using c_fmod_nonneg [of a 180] by (auto simp: py_mod_def Let_def)
next
  case False
  then have neg: "a < 0" by simp
  show ?thesis
  proof (cases "c_fmod a 180 = 0")
    case True
    then show ?thesis by (simp add: py_mod_def)
  next
    case nz: False
    with c_fmod_neg [OF neg, of 180] have "0 < c_fmod a 180 + 180" "c_fmod a 180 + 180 < 180"
      by simp_all
    from round_double_range [OF this] nz c_fmod_neg [OF neg, of 180]
    show ?thesis by (simp add: py_mod_def Let_def)
  qed
qed

lemma py_mod_180_nonneg_arg: "0 \<le> a \<Longrightarrow> py_mod a 180 < 180"
  using c_fmod_nonneg [of a 180] by (auto simp: py_mod_def Let_def)

lemma c_fmod_small:
  assumes "a < 0" and "- 180 < a"
  shows "c_fmod a 180 = a"
proof -
  have "- 1 < a / 180" "a / 180 < 0" using assms by simp_all
  then have "\<lceil>a / 180\<rceil> = 0" by (intro ceiling_unique) simp_all
  then show ?thesis using assms by (simp add: c_fmod_def)
qed

lemma binade_near_180:
  assumes "0 \<le> t" and "t < 52"
  shows "binade (180 - t) = 7"
proof -
  let ?a = "180 - t"
  have pos: "0 < ?a" using assms by simp
  have "log 2 (2 ^ 7) \<le> log 2 ?a" using assms by (subst log_le_cancel_iff) simp_all
  then have lo: "7 \<le> log 2 ?a" by (simp only: log_pow_cancel)
  have "log 2 ?a < log 2 (2 ^ 8)" using assms by (subst log_less_cancel_iff) simp_all
  then have hi: "log 2 ?a < 8" by (simp only: log_pow_cancel)
  have "\<lfloor>log 2 ?a\<rfloor> = 7" by (rule floor_unique) (use lo hi in simp_all)
  then show ?thesis using pos by (simp add: binade_def)
qed

lemma round_half_even_up:
  assumes "0 < d" and "d < 1 / 2"
  shows "round_half_even (of_int m - d) = m"
proof -
  have f: "\<lfloor>of_int m - d\<rfloor> = m - 1"
    by (rule floor_unique) (use assms in simp_all)
  have "1 / 2 < of_int m - d - of_int (m - 1)" using assms by simp
  then show ?thesis unfolding round_half_even_def Let_def f by simp
qed

lemma ulp_near_180: "2 powr of_int (7 - 52) = (1 / 2 ^ 45 :: real)"
proof -
  have "2 powr of_int (7 - 52) = (2::real) powr (- real 45)" by simp
  also have "\<dots> = 1 / 2 powr (real 45)" by (simp only: powr_minus_divide)
  also have "\<dots> = 1 / 2 ^ 45" by (simp only: powr_realpow)
  finally show ?thesis .
qed

lemma round_double_near_180:
  assumes "0 < t" and "t < 1 / 2 ^ 46"
  shows "round_double (180 - t) = 180"
proof -
  define m :: int where "m = 180 * 2 ^ 45"
  define d where "d = t * 2 ^ 45"
  have d: "0 < d" "d < 1 / 2"
  proof -
    show "0 < d" using assms(1) by (simp add: d_def)
    have "t * 2 ^ 45 < 1 / 2 ^ 46 * 2 ^ 45"
      using assms(2) by (intro mult_strict_right_mono) simp_all
    then show "d < 1 / 2" by (simp add: d_def)
  qed
  have t52: "t < 52" using assms(2) by (rule less_trans) simp
  have b: "binade (180 - t) = 7" using assms(1) t52 by (intro binade_near_180) simp_all
  have q: "(180 - t) / (1 / 2 ^ 45) = of_int m - d" by (simp add: m_def d_def algebra_simps)
  have nz: "180 - t \<noteq> 0" using t52 by simp
  have "round_double (180 - t) = 1 / 2 ^ 45 * of_int (round_half_even (of_int m - d))"
    using nz by (simp only: round_double_def b ulp_near_180 q if_False)
  also have "\<dots> = 1 / 2 ^ 45 * of_int m" by (simp only: round_half_even_up [OF d])
  also have "\<dots> = 180" by (simp add: m_def)
  finally show ?thesis .
qed

lemma py_mod_tiny:
  assumes "a < 0" and "- (1 / 2 ^ 46) < a"
  shows "py_mod a 180 = 180"
proof -
  have "- 180 < a" using assms(2) by (rule less_trans [rotated]) simp
  then have r: "c_fmod a 180 = a" using assms(1) by (intro c_fmod_small) simp_all
  have "round_double (180 - (- a)) = 180" using assms by (intro round_double_near_180) simp_all
  then show ?thesis using assms(1) by (simp add: py_mod_def r add.commute)
qed

lemma round_half_even_le:
  assumes "q < of_int m - 1 / 2"
  shows "round_half_even q \<le> m - 1"
proof -
  have f: "of_int \<lfloor>q\<rfloor> \<le> q" by (rule of_int_floor_le)
  show ?thesis
  proof (cases "q - of_int \<lfloor>q\<rfloor> < 1 / 2")
    case True
    then have "round_half_even q = \<lfloor>q\<rfloor>" by (simp add: round_half_even_def)
    moreover have "(of_int \<lfloor>q\<rfloor> :: real) < of_int m" using f assms by linarith
    then have "\<lfloor>q\<rfloor> < m" by (simp only: of_int_less_iff)
    ultimately show ?thesis by simp
  next
    case False
    then have "(of_int \<lfloor>q\<rfloor> :: real) < of_int m - 1" using assms by linarith
    then have "(of_int \<lfloor>q\<rfloor> :: real) < of_int (m - 1)" by simp
    then have "\<lfloor>q\<rfloor> < m - 1" by (simp only: of_int_less_iff)
    then show ?thesis using round_half_even_bounds [of q] by linarith
  qed
qed

lemma round_half_even_tie:
  assumes "even m"
  shows "round_half_even (of_int m - 1 / 2) = m"
proof -
  have f: "\<lfloor>of_int m - 1 / 2 :: real\<rfloor> = m - 1"
    by (rule floor_unique) simp_all
  have o: "odd (m - 1)" using assms by simp
  show ?thesis unfolding round_half_even_def Let_def f using o by simp
qed

lemma pow2_7: "2 powr of_int 7 = (128::real)"
proof -
  have "(2::real) powr of_int 7 = 2 ^ 7" by (simp add: powr_realpow [symmetric])
  then show ?thesis by simp
qed

lemma pow2_8: "2 powr of_int (7 + 1) = (256::real)"
proof -
  have "(2::real) powr of_int (7 + 1) = 2 ^ 8" by (simp add: powr_realpow [symmetric])
  then show ?thesis by simp
qed

lemma round_double_le_pow:
  assumes "0 < a"
  shows "round_double a \<le> 2 powr of_int (binade a + 1)"
proof -
  define u :: real where "u = 2 powr of_int (binade a - 52)"
  have u: "0 < u" by (simp add: u_def)
  have nz: "a \<noteq> 0" using assms by simp
  from scaled_bounds [OF nz] assms have "a / u < 2 ^ 53" by (simp add: u_def)
  then have "a / u < of_int (2 ^ 53)" by simp
  then have "round_half_even (a / u) \<le> 2 ^ 53" by (rule round_half_even_below)
  then have "(of_int (round_half_even (a / u)) :: real) \<le> of_int (2 ^ 53)"
    by (simp only: of_int_le_iff)
  then have A: "u * of_int (round_half_even (a / u)) \<le> u * of_int (2 ^ 53)"
    using u by (simp only: mult_le_cancel_left_pos)
  have B: "u * of_int (2 ^ 53) = 2 powr of_int (binade a + 1)"
  proof -
    have "(of_int (2 ^ 53) :: real) = 2 powr of_int 53" by (simp add: powr_realpow [symmetric])
    then have "u * of_int (2 ^ 53) = 2 powr (of_int (binade a - 52) + of_int 53)"
      unfolding u_def by (simp only: powr_add)
    then show ?thesis by (simp add: add.commute)
  qed
  have rd: "round_double a = u * of_int (round_half_even (a / u))"
    using nz by (simp add: round_double_def u_def)
  from A have "round_double a \<le> u * of_int (2 ^ 53)" by (simp only: rd)
  then show ?thesis by (simp only: B)
qed

lemma round_double_below_128:
  assumes "0 < a" and "a < 128"
  shows "round_double a \<le> 128"
proof -
  have nz: "a \<noteq> 0" using assms by simp
  from binade_bounds [OF nz] assms have "2 powr of_int (binade a) < (2::real) powr of_int 7"
    by (simp add: pow2_7)
  then have "(of_int (binade a) :: real) < of_int 7"
    by (simp only: powr_less_cancel_iff one_less_numeral_iff semiring_norm)
  then have "binade a + 1 \<le> 7" by linarith
  then have "(of_int (binade a + 1) :: real) \<le> of_int 7" by (simp only: of_int_le_iff)
  then have "(2::real) powr of_int (binade a + 1) \<le> 2 powr of_int 7"
    by (simp only: powr_le_cancel_iff one_less_numeral_iff semiring_norm)
  with round_double_le_pow [OF assms(1)] show ?thesis by (simp add: pow2_7)
qed

lemma round_double_scaled_180:
  assumes "128 \<le> a" and "a < 256"
  shows "round_double a = 1 / 2 ^ 45 * of_int (round_half_even (a * 2 ^ 45))"
proof -
  have lo: "2 powr of_int 7 \<le> \<bar>a\<bar>" using assms by (simp add: pow2_7)
  have hi: "\<bar>a\<bar> < 2 powr of_int (7 + 1)" using assms by (simp add: pow2_8)
  have "round_double a
        = 2 powr of_int (7 - 52) * of_int (round_half_even (a / 2 powr of_int (7 - 52)))"
    using lo hi by (rule round_double_binade)
  then show ?thesis by (simp only: ulp_near_180) simp
qed

lemma round_double_below_180:
  assumes "128 \<le> a" and "a < 180 - 1 / 2 ^ 46"
  shows "round_double a \<le> 180 - 1 / 2 ^ 45"
proof -
  define m :: int where "m = 180 * 2 ^ 45"
  have "a * 2 ^ 45 < (180 - 1 / 2 ^ 46) * 2 ^ 45"
    using assms(2) by (intro mult_strict_right_mono) simp_all
  also have "\<dots> = of_int m - 1 / 2" by (simp add: m_def algebra_simps)
  finally have "round_half_even (a * 2 ^ 45) \<le> m - 1" by (rule round_half_even_le)
  then have "(of_int (round_half_even (a * 2 ^ 45)) :: real) \<le> of_int (m - 1)"
    by (simp only: of_int_le_iff)
  then have "1 / 2 ^ 45 * (of_int (round_half_even (a * 2 ^ 45)) :: real) \<le> 1 / 2 ^ 45 * of_int (m - 1)"
    by (intro mult_left_mono) simp_all
  also have "\<dots> = 180 - 1 / 2 ^ 45" by (simp add: m_def algebra_simps)
  finally show ?thesis using assms by (simp add: round_double_scaled_180)
qed

lemma round_double_tie_180: "round_double (180 - 1 / 2 ^ 46) = 180"
proof -
  define m :: int where "m = 180 * 2 ^ 45"
  have e: "even m" by (simp add: m_def)
  have q: "(180 - 1 / 2 ^ 46) * 2 ^ 45 = (of_int m - 1 / 2 :: real)" by (simp add: m_def algebra_simps)
  have "round_double (180 - 1 / 2 ^ 46)
        = 1 / 2 ^ 45 * of_int (round_half_even ((180 - 1 / 2 ^ 46) * 2 ^ 45))"
    by (rule round_double_scaled_180) simp_all
  also have "\<dots> = 1 / 2 ^ 45 * of_int m" by (simp only: q round_half_even_tie [OF e])
  also have "\<dots> = 180" by (simp add: m_def)
  finally show ?thesis .
qed

lemma round_double_180_iff:
  assumes "0 < x" and "x < 180"
  shows "round_double x = 180 \<longleftrightarrow> 180 - 1 / 2 ^ 46 \<le> x"
proof (cases "180 - 1 / 2 ^ 46 \<le> x")
  case ge: True
  have "round_double x = 180"
  proof (cases "x = 180 - 1 / 2 ^ 46")
    case True
    then show ?thesis by (simp only: round_double_tie_180)
  next
    case False
    with ge have "180 - x < 1 / 2 ^ 46" "0 < 180 - x" using assms by simp_all
    from round_double_near_180 [OF this(2) this(1)] show ?thesis by simp
  qed
  with ge show ?thesis by simp
next
  case False
  then have lt: "x < 180 - 1 / 2 ^ 46" by simp
  have "round_double x < 180"
  proof (cases "x < 128")
    case True
    from round_double_below_128 [OF assms(1) True] show ?thesis by simp
  next
    case False
    then have "128 \<le> x" by simp
    from round_double_below_180 [OF this lt] show ?thesis
      by (rule le_less_trans) simp
  qed
  with False show ?thesis by simp
qed

lemma py_mod_180_eq_iff:
  "py_mod a 180 = 180 \<longleftrightarrow> - (1 / 2 ^ 46) \<le> c_fmod a 180 \<and> c_fmod a 180 < 0"
proof (cases "0 \<le> a")
  case True
  with c_fmod_nonneg [of a 180] py_mod_180_nonneg_arg [of a] show ?thesis by simp
next
  case False
  then have neg: "a < 0" by simp
  show ?thesis
  proof (cases "c_fmod a 180 = 0")
    case True
    then show ?thesis by (simp add: py_mod_def)
  next
    case nz: False
    with c_fmod_neg [OF neg, of 180]
    have r: "0 < c_fmod a 180 + 180" "c_fmod a 180 + 180 < 180" "c_fmod a 180 < 0" by simp_all
    have "py_mod a 180 = round_double (c_fmod a 180 + 180)"
      using nz r(3) by (simp add: py_mod_def Let_def)
    then show ?thesis using round_double_180_iff [OF r(1,2)] r(3) by auto
  qed
qed

text \<open>
  C7: after \<open>rotate\<close> the stored angle is to be below 180. For the argument
  \<open>-2^-70\<close> the C \<open>fmod\<close> is the argument itself, and the sum \<open>-2^-70 + 180\<close> lies less
  than half a unit in the last place below 180, so the addition gives 180 (as
  \<open>(-2.0 ** -70) % 180 == 180.0\<close> in Python): \<open>rotate\<close> stores the angle 180.
\<close>

theorem rotate_stores_180:
  "angle (rotate_vpoint (c_r_joint [] 0 0) (- (1 / 2 ^ 70))) = 180"
  using py_mod_tiny [of "- (1 / 2 ^ 70)"] by (simp add: rotate_vpoint_def)

text \<open>
  The range of the stored angle: it is at least 0 and at most 180, and it is 180 exactly
  when the C \<open>fmod\<close> of the argument lies in \<open>[-2^-46, 0)\<close>. An argument that is not
  negative, or whose \<open>fmod\<close> is below \<open>-2^-46\<close>, leaves an angle below 180; the argument
  \<open>-10\<close> leaves 170.
\<close>

lemma rotate_angle_range:
  "0 \<le> angle (rotate_vpoint v a) \<and> angle (rotate_vpoint v a) \<le> 180 \<and>
   (angle (rotate_vpoint v a) = 180
      \<longleftrightarrow> - (1 / 2 ^ 46) \<le> c_fmod a 180 \<and> c_fmod a 180 < 0)"
  using py_mod_180_range [of a] py_mod_180_eq_iff [of a] by (simp add: rotate_vpoint_def)

lemma rotate_minus_10: "angle (rotate_vpoint v (- 10)) = 170"
proof -
  have r: "c_fmod (- 10) 180 = - 10" by (rule c_fmod_small) simp_all
  have "round_double 170 = 170" by (simp add: round_double_numeral)
  then show ?thesis by (simp add: rotate_vpoint_def py_mod_def r)
qed

subsection \<open>Rendering of the stack\<close>

lemma as_list_length: "length (as_list st) = length st"
  by (induction st rule: as_list.induct) simp_all

lemma as_list_nth: "i < length st \<Longrightarrow> as_list st ! i = hd (as_list [st ! i])"
proof (induction st arbitrary: i rule: as_list.induct)
  case 1
  then show ?case by simp
qed (case_tac i; simp)+

text \<open>
  C8: \<open>as_list\<close> renders every record of the stack, a PLA record as the tag \<open>PLAP\<close> followed
  by its four symbol strings and a PLAP record as the same tag followed by its five symbol
  strings.
\<close>

theorem as_list_pla_plap:
  "length (as_list st) = length st \<and>
   (\<forall>i < length st.
      (\<forall>c1 v1 v2 c2. st ! i = PLA c1 v1 v2 c2 \<longrightarrow>
         as_list st ! i = [''PLAP'', symbol_str c1, symbol_str v1, symbol_str v2, symbol_str c2]) \<and>
      (\<forall>c1 v1 v2 c2 c3. st ! i = PLAP c1 v1 v2 c2 c3 \<longrightarrow>
         as_list st ! i =
           [''PLAP'', symbol_str c1, symbol_str v1, symbol_str v2, symbol_str c2, symbol_str c3]))"
  by (simp add: as_list_length as_list_nth)

theorem as_list_pla_plap_witness:
  "as_list [PLA (P_LABEL, 0) (L_LABEL, 0) (A_LABEL, 0) (P_LABEL, 2),
            PLAP (P_LABEL, 0) (L_LABEL, 1) (A_LABEL, 1) (P_LABEL, 1) (P_LABEL, 13)] ! 0
     = [''PLAP'', ''P0'', ''L0'', ''a0'', ''P2''] \<and>
   as_list [PLA (P_LABEL, 0) (L_LABEL, 0) (A_LABEL, 0) (P_LABEL, 2),
            PLAP (P_LABEL, 0) (L_LABEL, 1) (A_LABEL, 1) (P_LABEL, 1) (P_LABEL, 13)] ! 1
     = [''PLAP'', ''P0'', ''L1'', ''a1'', ''P1'', ''P13'']"
  using as_list_pla_plap [of "[PLA (P_LABEL, 0) (L_LABEL, 0) (A_LABEL, 0) (P_LABEL, 2),
            PLAP (P_LABEL, 0) (L_LABEL, 1) (A_LABEL, 1) (P_LABEL, 1) (P_LABEL, 13)]"]
  by (simp add: symbol_str_def digit_str_def)

subsection \<open>Comparison of joint lists\<close>

lemma same_points_from_eq:
  "i + length vs \<le> length stored \<Longrightarrow>
   same_points_from stored i vs = Inr (map links vs = take (length vs) (drop i (map links stored)))"
proof (induction vs arbitrary: i)
  case Nil
  then show ?case by simp
next
  case (Cons v vs)
  then have i: "i < length stored" by simp
  have d: "drop i (map links stored) = links (stored ! i) # drop (Suc i) (map links stored)"
    using i by (simp add: Cons_nth_drop_Suc [symmetric])
  show ?case using Cons.IH [of "Suc i"] Cons.prems i d by auto
qed

text \<open>
  C10: \<open>same_points\<close> walks the argument only. When the argument is not longer than the
  stored joint list, the answer is true exactly when the link tuples of the argument agree
  with those of the stored joints at the same indices; the stored joints behind the end of
  the argument and the coordinates of the joints play no part.
\<close>

theorem same_points_prefix_links:
  "length vs \<le> length (ss_vpoints sys) \<Longrightarrow>
   same_points sys vs = Inr (map links vs = take (length vs) (map links (ss_vpoints sys)))"
  using same_points_from_eq [of 0 vs "ss_vpoints sys"] by (simp add: same_points_def)

theorem same_points_prefix_links_witness:
  "same_points
     (fst (new_SolverSystem [c_r_joint [''ground'', ''L1''] 0 0, c_r_joint [''L1''] 1 1]
             None 0 (\<lambda>r. [])))
     [c_r_joint [''ground'', ''L1''] 5 7] = Inr True"
  using same_points_prefix_links [of "[c_r_joint [''ground'', ''L1''] 5 7]"
      "fst (new_SolverSystem [c_r_joint [''ground'', ''L1''] 0 0, c_r_joint [''L1''] 1 1]
              None 0 (\<lambda>r. []))"]
  by (simp add: new_SolverSystem_def c_r_joint_def new_VPoint_def)

subsection \<open>Changing the inputs of a solver system\<close>

lemma update_keys_present:
  "k \<in> set (map fst d) \<Longrightarrow> map fst (AList.update k v d) = map fst d"
  by (simp add: update_keys)

lemma dict_update_keys:
  "set (map fst new) \<subseteq> set (map fst d) \<Longrightarrow> map fst (dict_update d new) = map fst d"
  unfolding dict_update_def
proof (induction new arbitrary: d)
  case Nil
  then show ?case by simp
next
  case (Cons kv new)
  have k: "fst kv \<in> set (map fst d)" using Cons.prems by simp
  have m: "map fst (AList.update (fst kv) (snd kv) d) = map fst d"
    using k by (rule update_keys_present)
  have "set (map fst new) \<subseteq> set (map fst (AList.update (fst kv) (snd kv) d))"
    using Cons.prems m by simp
  from Cons.IH [OF this] m show ?case by simp
qed

lemma input_angles_length_keys:
  "map fst xs = map fst ys \<Longrightarrow> length (input_angles xs) = length (input_angles ys)"
proof (induction xs arbitrary: ys rule: input_angles.induct)
  case 1
  then show ?case by simp
next
  case (2 b d a rest)
  then obtain y ys' where ys: "ys = y # ys'" by (cases ys) auto
  obtain b' d' a' where y: "y = ((b', d'), a')" by (cases y) auto
  with 2 ys show ?case by (cases "b = d") auto
qed

lemma write_angles_ok:
  "length angles = k + length (input_angles ins) \<Longrightarrow>
   write_angles ins k angles = Inr (take k angles @ input_angles ins)"
proof (induction ins k angles rule: write_angles.induct)
  case (1 k angles)
  then show ?case by simp
next
  case (2 b d a rest k angles)
  show ?case
  proof (cases "b = d")
    case True
    with 2 show ?thesis by simp
  next
    case False
    with 2 have k: "k < length angles" by simp
    have "write_angles rest (k + 1) (angles[k := radians a])
          = Inr (take (k + 1) (angles[k := radians a]) @ input_angles rest)"
      using 2 False k by simp
    moreover have "take (k + 1) (angles[k := radians a]) = take k angles @ [radians a]"
      using k by (simp add: take_Suc_conv_app_nth)
    ultimately show ?thesis using False k by simp
  qed
qed

text \<open>
  C4: \<open>set_inputs\<close> is to fail with an error when a key of its argument is not a declared
  input pair. On a system built with \<open>inputs = {(0, 1): 0}\<close> the call
  \<open>set_inputs({(0, 2): 0})\<close> raises \<open>ValueError\<close> inside the method, and the method, which
  has no exception clause, drops it: the call returns, with the solver and the dict as they
  were.
\<close>

theorem set_inputs_drops_error:
  "set_inputs (fst (new_SolverSystem vps (Some 0) 1 one_input)) (Some [((0, 2), 0)]) one_input
     = Inr (Some ValueError,
            \<lparr> ss_vpoints = vps, ss_inputs = 0, ss_inputs_angle = [0] \<rparr>, one_input)"
  by (simp add: set_inputs_def new_SolverSystem_def show_inputs_def one_input_def radians_def)

text \<open>
  Every call: on a system built with the dict \<open>r\<close>, and with that dict as it was at the
  build, \<open>set_inputs\<close> raises (and drops) \<open>ValueError\<close> when a key of its argument is not a
  key of the dict; otherwise it returns, the dict is updated in place and the stored radian
  angles are those of the pairs with two different joints, in the iteration order of the
  dict.
\<close>

lemma set_inputs_checked:
  "set_inputs (fst (new_SolverSystem vps (Some r) fresh h)) (Some new) h =
     (if set (map fst new) \<subseteq> set (map fst (h r))
      then Inr (None,
                \<lparr> ss_vpoints = vps, ss_inputs = r,
                   ss_inputs_angle = input_angles (dict_update (h r) new) \<rparr>,
                h(r := dict_update (h r) new))
      else Inr (Some ValueError, fst (new_SolverSystem vps (Some r) fresh h), h))"
proof (cases "set (map fst new) \<subseteq> set (map fst (h r))")
  case True
  have "length (input_angles (h r)) = length (input_angles (dict_update (h r) new))"
    using dict_update_keys [OF True] by (intro input_angles_length_keys) simp
  then have "write_angles (dict_update (h r) new) 0 (input_angles (h r))
             = Inr (input_angles (dict_update (h r) new))"
    using write_angles_ok [of "input_angles (h r)" 0 "dict_update (h r) new"] by simp
  then show ?thesis using True
    by (simp add: set_inputs_def new_SolverSystem_def show_inputs_def Let_def)
next
  case False
  then show ?thesis by (simp add: set_inputs_def new_SolverSystem_def show_inputs_def)
qed

lemma set_inputs_keeps_keys:
  "set (map fst new) \<subseteq> set (map fst declared) \<Longrightarrow>
   map fst (dict_update declared new) = map fst declared"
  by (rule dict_update_keys)

text \<open>
  The test is made against the keys that the shared dict has at the call, not against the
  pairs declared at the build. When the caller has stored the pair \<open>(0, 2)\<close> in its dict
  after the build, \<open>set_inputs({(0, 2): 30})\<close> passes the test, and the write loop steps
  its iterator past the one stored angle.
\<close>

lemma set_inputs_after_caller_write:
  "set_inputs (fst (new_SolverSystem vps (Some 0) 1 one_input)) (Some [((0, 2), 30)])
     (one_input(0 := one_input 0 @ [((0, 2), 0)])) = Inl UndefinedBehaviour"
  by (simp add: set_inputs_def new_SolverSystem_def show_inputs_def one_input_def
      dict_update_def)

subsection \<open>Slope angle\<close>

text \<open>
  C5, as stated: \<open>slope_angle\<close> is the angle of the vector from the other joint to this one.
  With this joint at \<open>(0, 0)\<close>, the other at \<open>(1, 0)\<close> and both selectors 2, that vector is
  \<open>(-1, 0)\<close>, at 180 degrees; the source takes \<open>atan2(0 - 0, 1 - 0)\<close>, which is 0.
\<close>

theorem slope_angle_direction_counterexample:
  "\<not> (slope_angle (c_r_joint [] 0 0) (c_r_joint [] 1 0) 2 2
        = Inr (vector_angle (1, 0) (0, 0)))"
  by (simp add: slope_angle_def vector_angle_def atan2_def c_r_joint_def new_VPoint_def)

text \<open>
  C5, amended: \<open>slope_angle\<close> is the angle in degrees from the horizontal of the vector from
  this joint to the other one; \<open>num2\<close> selects the endpoint of the other joint, and \<open>num1\<close>
  selects the endpoint of this joint when it is 2 or more or equal to \<open>num2\<close>. (For
  \<open>num1\<close> below 2 the source reads \<open>self.c[num2]\<close>; the statement leaves the case
  \<open>num1 \<noteq> num2\<close> out.)
\<close>

theorem slope_angle_self_to_other:
  assumes "1 < num1 \<or> num1 = num2"
    and "endpoint self num1 = Inr a"
    and "endpoint p num2 = Inr b"
  shows "slope_angle self p num1 num2 = Inr (vector_angle a b)"
  using assms by (auto simp: slope_angle_def endpoint_def vector_angle_def split: if_splits)

theorem slope_angle_self_to_other_witness:
  "slope_angle ((c_slider_joint [''ground'', ''L1''] RP 0 0 0)\<lparr>c_1 := (0, 5)\<rparr>)
               ((c_slider_joint [''ground'', ''L2''] RP 0 1 0)\<lparr>c_1 := (1, 5)\<rparr>) 1 1 = Inr 0"
  using slope_angle_self_to_other [of 1 1
      "(c_slider_joint [''ground'', ''L1''] RP 0 0 0)\<lparr>c_1 := (0, 5)\<rparr>" "(0, 5)"
      "(c_slider_joint [''ground'', ''L2''] RP 0 1 0)\<lparr>c_1 := (1, 5)\<rparr>" "(1, 5)"]
  by (simp add: endpoint_def c_at_def c_slider_joint_def new_VPoint_def vector_angle_def atan2_def)

text \<open>
  With \<open>num1 = 0\<close> and \<open>num2 = 1\<close> the source takes the pin \<open>c[1]\<close> of this joint, not its
  slot anchor \<open>c[0]\<close>: between the pins \<open>(0, 5)\<close> and \<open>(1, 5)\<close> the angle is 0.
\<close>

lemma slope_angle_num1_reads_num2:
  "slope_angle ((c_slider_joint [''ground'', ''L1''] RP 0 0 0)\<lparr>c_1 := (0, 5)\<rparr>)
               ((c_slider_joint [''ground'', ''L2''] RP 0 1 0)\<lparr>c_1 := (1, 5)\<rparr>) 0 1 = Inr 0"
  by (simp add: slope_angle_def c_at_def c_slider_joint_def new_VPoint_def atan2_def)

subsection \<open>Distance between two joints\<close>

lemma hypot_nonneg: "0 \<le> hypot a b" by (simp add: hypot_def)
lemma hypot_neg: "hypot (a - b) (c - d) = hypot (b - a) (d - c)"
  by (simp add: hypot_def algebra_simps)

lemma distance_nonneg: "0 \<le> distance slot a b"
  by (simp add: distance_def Let_def hypot_nonneg)

lemma on_links_set: "set (on_links_of slot a b) = set (links a) \<inter> set (links b)"
  by (auto simp: on_links_of_def inter_links_def)

lemma on_links_distinct: "distinct (on_links_of slot a b)"
  by (simp add: on_links_of_def inter_links_def)

lemma on_links_single:
  assumes "card (set (links a) \<inter> set (links b)) \<le> 1"
  shows "on_links_of slot a b = on_links_of slot b a"
proof -
  let ?x = "on_links_of slot a b" and ?y = "on_links_of slot b a"
  have s: "set ?x = set ?y" by (auto simp: on_links_set)
  have "length ?x = card (set ?x)" by (simp add: distinct_card on_links_distinct)
  then have lx: "length ?x \<le> 1" using assms by (simp add: on_links_set)
  have "length ?y = card (set ?y)" by (simp add: distinct_card on_links_distinct)
  then have ly: "length ?y \<le> 1" using assms s by (simp add: on_links_set)
  show ?thesis
  proof (cases ?x)
    case Nil
    with s show ?thesis by simp
  next
    case (Cons u us)
    with lx have x: "?x = [u]" by simp
    with s ly show ?thesis by (cases ?y) auto
  qed
qed

lemma distance_sym_same_pick:
  assumes "hd (on_links_of slot a b) = hd (on_links_of slot b a)"
  shows "distance slot a b = distance slot b a"
proof -
  have "on_links_of slot a b = [] \<longleftrightarrow> on_links_of slot b a = []"
    using on_links_set [of slot a b] on_links_set [of slot b a]
    by (metis inf_commute set_empty)
  then show ?thesis using assms
    by (auto simp: distance_def Let_def hypot_neg)
qed

lemma distance_sym_both_R:
  assumes "jtype a = R" "jtype b = R"
  shows "distance slot a b = distance slot b a"
  using assms by (auto simp: distance_def Let_def hypot_neg)

text \<open>
  C6: \<open>distance\<close> is to be symmetric for every pair of joints, also for pairs with two
  or more common links. Two RP joints with the link tuples \<open>(L1, L2)\<close> and \<open>(L2, L1)\<close>, the
  first with its pin moved to \<open>(3, 0)\<close> by \<open>move\<close>, and an intersection set iterated in the order of
  the second operand (as CPython does when the two names fall on the same slot of the hash
  table): measured from the first joint the common link picked is \<open>L2\<close>, its pin link, and
  the distance is 3; measured from the second joint the link picked is \<open>L1\<close>, the slot link
  of the first joint, and the distance is 0.
\<close>

theorem distance_depends_on_set_order:
  "distance slot_by_other
     (move (c_slider_joint [''L1'', ''L2''] RP 0 0 0) (0, 0) (Some (3, 0)))
     (c_slider_joint [''L2'', ''L1''] RP 0 0 0) = 3 \<and>
   distance slot_by_other
     (c_slider_joint [''L2'', ''L1''] RP 0 0 0)
     (move (c_slider_joint [''L1'', ''L2''] RP 0 0 0) (0, 0) (Some (3, 0))) = 0"
  by (simp add: distance_def on_links_of_def inter_links_def slot_by_other_def
      c_slider_joint_def new_VPoint_def hypot_def move_def)

text \<open>
  What holds for every iteration order: \<open>distance\<close> is never negative, and it is symmetric
  whenever both joints are R joints, or they have at most one link in common, or both calls
  find the same common link first.
\<close>

lemma distance_nonneg_and_symmetric:
  "0 \<le> distance slot a b \<and>
   ((jtype a = R \<and> jtype b = R) \<or> card (set (links a) \<inter> set (links b)) \<le> 1
      \<or> hd (on_links_of slot a b) = hd (on_links_of slot b a)
    \<longrightarrow> distance slot a b = distance slot b a)"
  using distance_nonneg distance_sym_both_R distance_sym_same_pick on_links_single
  by metis

section \<open>Properties of the triangulation\<close>

lemmas run_defs = t_config_def t_config_setup_def init_tables_def joint_step_def link_step_def
  c_r_joint_def c_slider_joint_def new_VPoint_def FRAME_def set_add_def
  promote_all_def promote_base_def promote_link_def promote_node_def grounded_def
  pin_grounded_def has_offset_def is_slot_link_def positions_def input_step_def emit_pla_def
  add_pla_def add_pllp_def add_plpp_def add_pxy_def no_progress_def dict_len_def
  is_all_lock_def next_of_def get_reliable_friend_def get_not_base_friend_def
  get_base_friend_def get_input_base_def r_step_def p_step_def rp_step_def rp_emit_def
  rp_slot_pllp_def pxy_link_def pxy_friend_def visit_def loop_step_def clockwise_def
  enumerate_eq_zip upt_rec Let_def main_loop.simps round_simps

subsection \<open>Status tables\<close>

lemma advances_refl: "advances st st"
  by (simp add: advances_def)

lemma advances_trans: "advances a b \<Longrightarrow> advances b c \<Longrightarrow> advances a c"
  unfolding advances_def by blast

lemma advances_update: "advances st (AList.update k True st)"
  by (auto simp: advances_def update_conv')

lemma advances_update_trans: "advances a b \<Longrightarrow> advances a (AList.update k True b)"
  using advances_trans advances_update by blast

lemma finite_unsolved: "finite (unsolved st)"
proof -
  have "unsolved st \<subseteq> fst ` set st"
    by (auto simp: unsolved_def dest!: map_of_SomeD intro: rev_image_eqI)
  then show ?thesis by (rule finite_subset) simp
qed

lemma advances_unsolved: "advances st st' \<Longrightarrow> unsolved st' \<subseteq> unsolved st"
  by (auto simp: advances_def unsolved_def)

lemma solved_fewer_unsolved:
  assumes "advances st st'" and "map_of st k = Some False" and "map_of st' k = Some True"
  shows "card (unsolved st') < card (unsolved st)"
proof -
  have "k \<in> unsolved st" "k \<notin> unsolved st'" using assms by (simp_all add: unsolved_def)
  then have "unsolved st' \<subset> unsolved st" using advances_unsolved [OF assms(1)] by blast
  then show ?thesis by (simp add: psubset_card_mono finite_unsolved)
qed

subsection \<open>Loops with errors\<close>

lemma fold_err_rule:
  assumes "fold_err f xs s = Inr s'" and "I s"
    and "\<And>x t t'. x \<in> set xs \<Longrightarrow> I t \<Longrightarrow> f x t = Inr t' \<Longrightarrow> I t'"
  shows "I s'"
  using assms
proof (induction xs arbitrary: s)
  case Nil
  then show ?case by simp
next
  case (Cons x xs)
  from Cons.prems(1) obtain t where t: "f x s = Inr t" and r: "fold_err f xs t = Inr s'"
    by (auto split: sum.splits)
  have "I t" using Cons.prems(2,3) t by auto
  then show ?case using Cons.IH [OF r] Cons.prems(3) by auto
qed

subsection \<open>Progress of one visit\<close>

lemma r_step_progress:
  assumes "r_step so env s = Inr s'"
  shows "st_node s' = st_node s \<and> advances (st_status s) (st_status s') \<and>
         (map_of (st_status s') (st_node s) = Some True \<or>
          (st_status s' = st_status s \<and> st_skip_times s' = Suc (st_skip_times s)))"
  using assms
  by (auto simp: r_step_def Let_def emit_pla_def no_progress_def advances_refl advances_update
      update_conv' split: option.splits fetched.splits if_splits)

lemma rp_step_progress:
  assumes "rp_step so env s = Inr s'"
  shows "st_node s' = st_node s \<and> advances (st_status s) (st_status s') \<and>
         (map_of (st_status s') (st_node s) = Some True \<or>
          (st_status s' = st_status s \<and> st_skip_times s' = Suc (st_skip_times s)))"
  using assms
  by (auto simp: rp_step_def rp_emit_def rp_slot_pllp_def Let_def no_progress_def advances_refl
      advances_update update_conv' split: option.splits fetched.splits if_splits sum.splits)

lemma pxy_friend_keeps:
  assumes "pxy_friend nd fb t = Inr t'"
    and "st_node t = n \<and> advances st0 (st_status t) \<and> map_of (st_status t) nd = Some True"
  shows "st_node t' = n \<and> advances st0 (st_status t') \<and> map_of (st_status t') nd = Some True"
  using assms
  by (auto simp: pxy_friend_def update_conv' advances_update_trans split: option.splits if_splits)

lemma pxy_link_keeps:
  assumes "pxy_link so env nd link t = Inr t'"
    and "st_node t = n \<and> advances st0 (st_status t) \<and> map_of (st_status t) nd = Some True"
  shows "st_node t' = n \<and> advances st0 (st_status t') \<and> map_of (st_status t') nd = Some True"
proof (cases "map_of (env_vlinks env) link")
  case None
  with assms(1) show ?thesis by (simp add: pxy_link_def)
next
  case (Some ns)
  with assms(1) have f: "fold_err (pxy_friend nd) (so ns) t = Inr t'" by (simp add: pxy_link_def)
  show ?thesis
    by (rule fold_err_rule [OF f, where I = "\<lambda>u. st_node u = n \<and> advances st0 (st_status u)
          \<and> map_of (st_status u) nd = Some True"]) (use assms(2) pxy_friend_keeps in blast)+
qed

lemma p_step_progress:
  assumes "p_step so env s = Inr s'"
  shows "st_node s' = st_node s \<and> advances (st_status s) (st_status s') \<and>
         (map_of (st_status s') (st_node s) = Some True \<or>
          (st_status s' = st_status s \<and> st_skip_times s' = Suc (st_skip_times s)))"
proof -
  let ?nd = "st_node s" and ?v = "env_vpoints env ! st_node s"
  let ?g = "get_not_base_friend so ?nd (env_vpoints env) (env_vlinks env) (st_status s)"
  show ?thesis
  proof (cases "pin_grounded ?v \<or> \<not> grounded ?v \<or> has_offset ?v")
    case True
    with assms show ?thesis by (auto simp: p_step_def Let_def no_progress_def advances_refl)
  next
    case False
    show ?thesis
    proof (cases "next_of ?g")
      case Stop
      with assms False show ?thesis
        by (auto simp: p_step_def Let_def no_progress_def advances_refl)
    next
      case (Raised e)
      with assms False show ?thesis by (auto simp: p_step_def Let_def)
    next
      case (Got fa fi)
      define s1 where "s1 = s\<lparr> st_exprs := add_pxy (st_exprs s) (P_LABEL, fa)
                            (L_LABEL, st_link_symbol s) (L_LABEL, st_link_symbol s + 1)
                            (P_LABEL, ?nd),
                          st_status := AList.update ?nd True (st_status s),
                          st_link_symbol := st_link_symbol s + 2 \<rparr>"
      from assms False Got obtain s2 where
        f: "fold_err (pxy_link so env ?nd) (tl (links ?v)) s1 = Inr s2" and
        s': "s' = s2\<lparr> st_skip_times := 0 \<rparr>"
        by (auto simp: p_step_def Let_def s1_def split: sum.splits)
      have start: "st_node s1 = ?nd \<and> advances (st_status s) (st_status s1)
                   \<and> map_of (st_status s1) ?nd = Some True"
        by (simp add: s1_def advances_update update_conv')
      have "st_node s2 = ?nd \<and> advances (st_status s) (st_status s2)
            \<and> map_of (st_status s2) ?nd = Some True"
        by (rule fold_err_rule [OF f, where I = "\<lambda>u. st_node u = ?nd
              \<and> advances (st_status s) (st_status u) \<and> map_of (st_status u) ?nd = Some True"])
           (use start pxy_link_keeps in blast)+
      then show ?thesis by (simp add: s')
    qed
  qed
qed

lemma visit_progress:
  assumes "visit so env s = Inr s'"
  shows "st_node s' = st_node s \<and> advances (st_status s) (st_status s') \<and>
         (map_of (st_status s') (st_node s) = Some True \<or>
          (st_status s' = st_status s \<and> st_skip_times s' = Suc (st_skip_times s)))"
proof (cases "jtype (env_vpoints env ! st_node s)")
  case R
  with assms show ?thesis by (auto simp: visit_def split: if_splits dest: r_step_progress)
next
  case P
  with assms show ?thesis by (auto simp: visit_def split: if_splits dest: p_step_progress)
next
  case RP
  with assms show ?thesis by (auto simp: visit_def split: if_splits dest: rp_step_progress)
qed

subsection \<open>The sweep ends\<close>

lemma loop_step_Next:
  assumes "loop_step so env s = Next s'" and "map_of (st_status s) 0 \<noteq> None"
  shows "map_of (st_status s') 0 \<noteq> None \<and> advances (st_status s) (st_status s')
         \<and> (s', s) \<in> sweep_order env"
proof -
  from assms(1) have nl: "\<not> is_all_lock (st_status s)"
    by (auto simp: loop_step_def split: if_splits)
  show ?thesis
  proof (cases "map_of (st_status s) (st_node s)")
    case None
    with assms nl have "s' = s\<lparr> st_node := 0 \<rparr>" by (simp add: loop_step_def)
    with assms(2) None show ?thesis by (auto simp: sweep_order_def advances_refl)
  next
    case (Some b)
    from assms(1) nl Some have lt: "st_skip_times s < env_around env"
      by (auto simp: loop_step_def split: if_splits)
    show ?thesis
    proof (cases b)
      case True
      with assms(1) nl Some lt
      have "s' = s\<lparr> st_node := st_node s + 1, st_skip_times := st_skip_times s + 1 \<rparr>"
        by (simp add: loop_step_def)
      with assms(2) lt show ?thesis by (auto simp: sweep_order_def advances_refl)
    next
      case False
      with assms(1) nl Some lt obtain t where
        v: "visit so env s = Inr t" and s': "s' = t\<lparr> st_node := st_node t + 1 \<rparr>"
        by (auto simp: loop_step_def split: sum.splits)
      from visit_progress [OF v] have
        adv: "advances (st_status s) (st_status t)" and
        pr: "map_of (st_status t) (st_node s) = Some True \<or>
             (st_status t = st_status s \<and> st_skip_times t = Suc (st_skip_times s))"
        by simp_all
      have keys: "map_of (st_status s') 0 \<noteq> None"
        using adv assms(2) by (simp add: s' advances_def)
      from pr have "(s', s) \<in> sweep_order env"
      proof
        assume "map_of (st_status t) (st_node s) = Some True"
        then have "card (unsolved (st_status t)) < card (unsolved (st_status s))"
          using solved_fewer_unsolved [OF adv] Some False by simp
        then show ?thesis by (simp add: sweep_order_def s')
      next
        assume "st_status t = st_status s \<and> st_skip_times t = Suc (st_skip_times s)"
        then show ?thesis using lt by (auto simp: sweep_order_def s')
      qed
      with keys adv show ?thesis by (simp add: s')
    qed
  qed
qed

lemma wf_sweep_order: "wf (sweep_order env)"
  by (simp add: sweep_order_def)

lemma main_loop_rule:
  assumes "I s" and "map_of (st_status s) 0 \<noteq> None"
    and "\<And>t t'. I t \<Longrightarrow> map_of (st_status t) 0 \<noteq> None \<Longrightarrow> loop_step so env t = Next t' \<Longrightarrow> I t'"
  shows "\<exists>r. main_loop so env s = Some r \<and>
            (\<forall>s'. r = Inr s' \<longrightarrow> I s' \<and> loop_step so env s' = Exit)"
  using assms(1,2)
proof (induction s rule: wf_induct_rule [OF wf_sweep_order [of env]])
  case (1 s)
  show ?case
  proof (cases "loop_step so env s")
    case Exit
    then show ?thesis using 1 by (subst main_loop.simps) simp
  next
    case (Raise e)
    then show ?thesis by (subst main_loop.simps) simp
  next
    case (Next t)
    from loop_step_Next [OF Next "1.prems"(2)] have
      k: "map_of (st_status t) 0 \<noteq> None" and o: "(t, s) \<in> sweep_order env" by simp_all
    have "I t" using assms(3) "1.prems" Next by blast
    from "1.IH" [OF o this k] show ?thesis using Next by (subst main_loop.simps) simp
  qed
qed

lemma main_loop_exit:
  assumes "main_loop so env s = Some (Inr s')" and "map_of (st_status s) 0 \<noteq> None"
  shows "is_all_lock (st_status s') \<or> env_around env \<le> st_skip_times s'"
proof -
  from main_loop_rule [of "\<lambda>u. True" s so env] assms obtain r where
    "main_loop so env s = Some r" and "\<forall>u. r = Inr u \<longrightarrow> loop_step so env u = Exit"
    by auto
  with assms(1) have "loop_step so env s' = Exit" by simp
  then show ?thesis by (auto simp: loop_step_def split: if_splits sum.splits)
qed

text \<open>
  The result of the loop is the first state, in the chain of turns from the start, at which
  a turn leaves the loop; an exception is the one that the turn at that state raises.
\<close>

lemma main_loop_result:
  assumes "map_of (st_status s) 0 \<noteq> None"
  shows "\<exists>t. (s, t) \<in> {(u, u'). loop_step so env u = Next u'}\<^sup>* \<and>
             (loop_step so env t = Exit \<and> main_loop so env s = Some (Inr t) \<or>
              (\<exists>e. loop_step so env t = Raise e \<and> main_loop so env s = Some (Inl e)))"
  using assms
proof (induction s rule: wf_induct_rule [OF wf_sweep_order [of env]])
  case (1 s)
  show ?case
  proof (cases "loop_step so env s")
    case Exit
    then have "main_loop so env s = Some (Inr s)" by (subst main_loop.simps) simp
    with Exit show ?thesis by blast
  next
    case (Raise e)
    then have "main_loop so env s = Some (Inl e)" by (subst main_loop.simps) simp
    with Raise show ?thesis by blast
  next
    case (Next t)
    from loop_step_Next [OF Next "1.prems"] have
      k: "map_of (st_status t) 0 \<noteq> None" and o: "(t, s) \<in> sweep_order env" by simp_all
    from "1.IH" [OF o k] obtain w where
      w: "(t, w) \<in> {(u, u'). loop_step so env u = Next u'}\<^sup>*" and
      r: "loop_step so env w = Exit \<and> main_loop so env t = Some (Inr w) \<or>
          (\<exists>e. loop_step so env w = Raise e \<and> main_loop so env t = Some (Inl e))" by blast
    have m: "main_loop so env s = main_loop so env t" using Next by (subst main_loop.simps) simp
    have "(s, t) \<in> {(u, u'). loop_step so env u = Next u'}" using Next by simp
    from this w have "(s, w) \<in> {(u, u'). loop_step so env u = Next u'}\<^sup>*"
      by (rule converse_rtrancl_into_rtrancl)
    with r m show ?thesis by auto
  qed
qed

subsection \<open>The status table after the preprocessing\<close>

lemma link_step_status:
  "fst (link_step nd v l (st, vl)) =
     (if l = FRAME \<and> jtype v = R then AList.update nd True st else st)"
  by (simp add: link_step_def)

lemma link_fold_status:
  "map_of (fst (fold (link_step nd v) ls (st, vl))) =
     (if jtype v = R \<and> FRAME \<in> set ls then (map_of st)(nd \<mapsto> True) else map_of st)"
proof (induction ls arbitrary: st vl)
  case Nil
  then show ?case by simp
next
  case (Cons l ls)
  obtain st' vl' where p: "link_step nd v l (st, vl) = (st', vl')"
    by (cases "link_step nd v l (st, vl)")
  then have st': "st' = (if l = FRAME \<and> jtype v = R then AList.update nd True st else st)"
    using link_step_status [of nd v l st vl] by simp
  have "fold (link_step nd v) (l # ls) (st, vl) = fold (link_step nd v) ls (st', vl')"
    by (simp add: p)
  then show ?case using Cons.IH [of st' vl'] by (auto simp: st' update_conv')
qed

lemma joint_step_status:
  "map_of (fst (joint_step (nd, v) (st, vl))) =
     (map_of st)(nd \<mapsto> (links v = [] \<or> (jtype v = R \<and> FRAME \<in> set (links v))))"
  by (auto simp: joint_step_def link_fold_status update_conv')

lemma init_fold_status:
  "map_of (fst (fold joint_step (enumerate n vs) sv)) k =
     (if n \<le> k \<and> k < n + length vs
      then Some (links (vs ! (k - n)) = [] \<or>
                 (jtype (vs ! (k - n)) = R \<and> FRAME \<in> set (links (vs ! (k - n)))))
      else map_of (fst sv) k)"
proof (induction vs arbitrary: n sv)
  case Nil
  then show ?case by auto
next
  case (Cons v vs)
  obtain st vl where sv: "sv = (st, vl)" by (cases sv)
  have "map_of (fst (joint_step (n, v) sv)) = 
        (map_of st)(n \<mapsto> (links v = [] \<or> (jtype v = R \<and> FRAME \<in> set (links v))))"
    by (simp add: sv joint_step_status)
  then show ?case
    using Cons.IH [of "Suc n" "joint_step (n, v) sv"]
    by (auto simp: sv nth_Cons' Suc_diff_le)
qed

lemma init_status_solved:
  "map_of (fst (init_tables vps st)) m = Some True \<longleftrightarrow> initially_solved vps st m"
  by (simp add: init_tables_def init_fold_status initially_solved_def)

lemma init_status_key: "vps \<noteq> [] \<Longrightarrow> map_of (fst (init_tables vps st)) 0 \<noteq> None"
  by (simp add: init_tables_def init_fold_status)

subsection \<open>The input pairs\<close>

lemma input_step_advances:
  "input_step bn s = Inr s' \<Longrightarrow> advances (st_status s) (st_status s')"
  by (auto simp: input_step_def emit_pla_def advances_refl advances_update
      split: prod.splits option.splits if_splits)

lemma input_fold_advances:
  assumes "fold_err input_step ins s = Inr s'"
  shows "advances (st_status s) (st_status s')"
  by (rule fold_err_rule [OF assms, where I = "\<lambda>u. advances (st_status s) (st_status u)"])
     (use advances_refl advances_trans input_step_advances in blast)+

subsection \<open>Termination\<close>

lemma setup_key:
  assumes "t_config_setup so vps ins st = Inr (env, s1)" and "vps \<noteq> []"
  shows "map_of (st_status s1) 0 \<noteq> None"
proof -
  let ?s0 = "\<lparr> st_status = fst (init_tables vps st), st_exprs = [],
                 st_link_symbol = 0, st_angle_symbol = 0, st_node = 0,
                 st_skip_times = 0 \<rparr>"
  from assms(1) have f: "fold_err input_step ins ?s0 = Inr s1"
    by (auto simp: t_config_setup_def split: sum.splits)
  have "map_of (st_status ?s0) 0 \<noteq> None" using assms(2) by (simp add: init_status_key)
  then show ?thesis using input_fold_advances [OF f] unfolding advances_def by blast
qed

lemma t_config_returns: "\<exists>r. t_config so vps inputs_arg status_arg = Some r"
proof -
  define ins where "ins = (case inputs_arg of None \<Rightarrow> [] | Some given \<Rightarrow> given)"
  define st where "st = (case status_arg of None \<Rightarrow> [] | Some given \<Rightarrow> given)"
  show ?thesis
  proof (cases "vps = [] \<or> ins = []")
    case True
    then show ?thesis by (auto simp: t_config_def ins_def Let_def)
  next
    case False
    show ?thesis
    proof (cases "t_config_setup so vps ins st")
      case (Inl e)
      with False show ?thesis by (simp add: t_config_def ins_def st_def Let_def)
    next
      case (Inr p)
      obtain env s1 where p: "p = (env, s1)" by (cases p)
      have "map_of (st_status s1) 0 \<noteq> None" using setup_key Inr p False by blast
      from main_loop_rule [of "\<lambda>u. True" s1 so env, OF _ this]
      obtain r where r: "main_loop so env s1 = Some r" by auto
      show ?thesis using False Inr p r
        by (cases r) (simp_all add: t_config_def ins_def st_def Let_def)
    qed
  qed
qed

lemma loop_step_quiet:
  assumes "loop_step so env s = Next s'" and "map_of (st_status s) (st_node s) \<noteq> None"
    and "st_status s' = st_status s"
  shows "st_skip_times s' = st_skip_times s + 1"
proof (cases "map_of (st_status s) (st_node s) = Some True")
  case True
  with assms show ?thesis by (auto simp: loop_step_def split: if_splits)
next
  case False
  with assms(1,2) obtain t where
    v: "visit so env s = Inr t" and s': "s' = t\<lparr> st_node := st_node t + 1 \<rparr>"
    by (auto simp: loop_step_def split: if_splits sum.splits)
  from visit_progress [OF v] assms(2,3) False show ?thesis by (auto simp: s')
qed

lemma loop_step_Exit:
  "loop_step so env s = Exit \<longleftrightarrow>
     is_all_lock (st_status s) \<or>
     (map_of (st_status s) (st_node s) \<noteq> None \<and> env_around env \<le> st_skip_times s)"
  by (auto simp: loop_step_def split: sum.splits)

lemma setup_around:
  "t_config_setup so vps ins st = Inr (env, s1) \<Longrightarrow> env_around env = dict_len (st_status s1)"
  by (auto simp: t_config_setup_def split: sum.splits)

text \<open>
  \<open>t_config\<close> returns (a stack or an exception) for every joint list, input list and
  status dict. The sweep starts with \<open>around\<close> equal to the number of entries of
  \<open>status\<close> and ends; when it ends without an exception, all joints are solved or
  \<open>skip_times\<close> has reached \<open>around\<close>. A turn of the loop leaves it exactly when all
  joints are solved, or \<open>node\<close> is a key of \<open>status\<close> and \<open>skip_times\<close> has reached
  \<open>around\<close>; and every turn at a key of \<open>status\<close> that leaves \<open>status\<close> as it was adds
  one to \<open>skip_times\<close>.
\<close>

lemma t_config_terminates:
  "(\<exists>r. t_config so vps inputs_arg status_arg = Some r) \<and>
   (\<forall>ins st env s1. vps \<noteq> [] \<and> t_config_setup so vps ins st = Inr (env, s1) \<longrightarrow>
      env_around env = dict_len (st_status s1) \<and>
      (\<exists>r. main_loop so env s1 = Some r \<and>
           (\<forall>s2. r = Inr s2 \<longrightarrow>
              is_all_lock (st_status s2) \<or> env_around env \<le> st_skip_times s2))) \<and>
   (\<forall>env s. loop_step so env s = Exit \<longleftrightarrow>
      is_all_lock (st_status s) \<or>
      (map_of (st_status s) (st_node s) \<noteq> None \<and> env_around env \<le> st_skip_times s)) \<and>
   (\<forall>env s s'. loop_step so env s = Next s' \<and> map_of (st_status s) (st_node s) \<noteq> None
        \<and> st_status s' = st_status s \<longrightarrow> st_skip_times s' = st_skip_times s + 1)"
proof (intro conjI allI impI)
  show "\<exists>r. t_config so vps inputs_arg status_arg = Some r" by (rule t_config_returns)
next
  fix ins st env s1
  assume a: "vps \<noteq> [] \<and> t_config_setup so vps ins st = Inr (env, s1)"
  then show "env_around env = dict_len (st_status s1)" using setup_around by blast
  have k: "map_of (st_status s1) 0 \<noteq> None" using setup_key a by blast
  from main_loop_rule [of "\<lambda>u. True" s1 so env, OF _ k]
  obtain r where r: "main_loop so env s1 = Some r" by auto
  have "\<forall>s2. r = Inr s2 \<longrightarrow> is_all_lock (st_status s2) \<or> env_around env \<le> st_skip_times s2"
    using main_loop_exit [OF _ k] r by blast
  with r show "\<exists>r. main_loop so env s1 = Some r \<and>
           (\<forall>s2. r = Inr s2 \<longrightarrow>
              is_all_lock (st_status s2) \<or> env_around env \<le> st_skip_times s2)" by blast
next
  fix env s
  show "loop_step so env s = Exit \<longleftrightarrow>
      is_all_lock (st_status s) \<or>
      (map_of (st_status s) (st_node s) \<noteq> None \<and> env_around env \<le> st_skip_times s)"
    by (rule loop_step_Exit)
next
  fix env s s'
  assume "loop_step so env s = Next s' \<and> map_of (st_status s) (st_node s) \<noteq> None
        \<and> st_status s' = st_status s"
  then show "st_skip_times s' = st_skip_times s + 1" using loop_step_quiet by blast
qed

text \<open>
  The chain \<open>dangling\<close> with the input pair \<open>(0, 1)\<close>: joint 2 has one solved friend only,
  and the sweep ends with \<open>skip_times\<close> at \<open>around\<close>.
\<close>

lemma dangling_run:
  "t_config (\<lambda>ns. ns) dangling (Some [(0, 1)]) None =
     Some (Inr ([PLA (P_LABEL, 0) (L_LABEL, 0) (A_LABEL, 0) (P_LABEL, 1)],
                [(0, True), (1, True), (2, False)]))"
  by (simp add: dangling_def run_defs numeral_2_eq_2 numeral_3_eq_3)

lemma dangling_sweep:
  "\<exists>env s1 s2. t_config_setup (\<lambda>ns. ns) dangling [(0, 1)] [] = Inr (env, s1) \<and>
      main_loop (\<lambda>ns. ns) env s1 = Some (Inr s2) \<and> \<not> is_all_lock (st_status s2)"
  by (simp add: dangling_def run_defs numeral_2_eq_2 numeral_3_eq_3)

lemma dangling_exit:
  "t_config (\<lambda>ns. ns) dangling (Some [(0, 1)]) None =
     Some (Inr ([PLA (P_LABEL, 0) (L_LABEL, 0) (A_LABEL, 0) (P_LABEL, 1)],
                [(0, True), (1, True), (2, False)])) \<and>
   (\<exists>env s1 s2. t_config_setup (\<lambda>ns. ns) dangling [(0, 1)] [] = Inr (env, s1) \<and>
      main_loop (\<lambda>ns. ns) env s1 = Some (Inr s2) \<and> \<not> is_all_lock (st_status s2) \<and>
      env_around env = dict_len (st_status s1) \<and> env_around env \<le> st_skip_times s2)"
proof -
  from dangling_sweep obtain env s1 s2 where
    su: "t_config_setup (\<lambda>ns. ns) dangling [(0, 1)] [] = Inr (env, s1)" and
    lp: "main_loop (\<lambda>ns. ns) env s1 = Some (Inr s2)" and
    nl: "\<not> is_all_lock (st_status s2)" by blast
  have ne: "dangling \<noteq> []" by (simp add: dangling_def)
  from t_config_terminates [of "\<lambda>ns. ns" dangling "Some [(0, 1)]" None] ne su
  have ar: "env_around env = dict_len (st_status s1)" and
    "\<exists>r. main_loop (\<lambda>ns. ns) env s1 = Some r \<and>
         (\<forall>s2. r = Inr s2 \<longrightarrow> is_all_lock (st_status s2) \<or> env_around env \<le> st_skip_times s2)"
    by blast+
  with lp nl have "env_around env \<le> st_skip_times s2" by auto
  with su lp nl ar dangling_run show ?thesis by blast
qed

text \<open>
  C2: the sweep is to end only when all joints are solved or a full lap has brought no
  progress. On the chain \<open>serial_arm\<close> with the input pairs \<open>(2, 1), (3, 2), (0, 3)\<close> the
  pass over the inputs places joint 3. The sweep then counts the solved joint 0 and the
  joint 1, whose driver 2 is not placed yet, places joint 2 by a PLA, which leaves
  \<open>skip_times\<close> at 2, counts the solved joints 3 and 0, and ends at joint 1 with
  \<open>skip_times = around = 4\<close>: three turns after joint 2 was placed, with joint 1 unsolved
  and a visit of joint 1 ready to place it.
\<close>

theorem t_config_leaves_early:
  "t_config so serial_arm (Some [(2, 1), (3, 2), (0, 3)]) None =
     Some (Inr ([PLA (P_LABEL, 0) (L_LABEL, 0) (A_LABEL, 0) (P_LABEL, 3),
                 PLA (P_LABEL, 3) (L_LABEL, 1) (A_LABEL, 1) (P_LABEL, 2)],
                [(0, True), (1, False), (2, True), (3, True)])) \<and>
   (\<exists>env s1 s2. t_config_setup so serial_arm [(2, 1), (3, 2), (0, 3)] [] = Inr (env, s1) \<and>
      main_loop so env s1 = Some (Inr s2) \<and> env_around env = 4 \<and>
      st_skip_times s2 = 4 \<and> st_node s2 = 1 \<and>
      map_of (st_status s2) 1 = Some False \<and>
      visit so env s2 = Inr (emit_pla 2 1 s2))"
  by (simp add: serial_arm_def run_defs numeral_2_eq_2 numeral_3_eq_3)

text \<open>With the same pairs in the order of the chain, the pass over the inputs places all.\<close>

lemma serial_arm_in_order:
  "t_config so serial_arm (Some [(0, 3), (3, 2), (2, 1)]) None =
     Some (Inr ([PLA (P_LABEL, 0) (L_LABEL, 0) (A_LABEL, 0) (P_LABEL, 3),
                 PLA (P_LABEL, 3) (L_LABEL, 1) (A_LABEL, 1) (P_LABEL, 2),
                 PLA (P_LABEL, 2) (L_LABEL, 2) (A_LABEL, 2) (P_LABEL, 1)],
                [(0, True), (1, True), (2, True), (3, True)]))"
  by (simp add: serial_arm_def run_defs numeral_2_eq_2 numeral_3_eq_3)

subsection \<open>Friends that a generator yields\<close>

lemma scan_friends_solved:
  "x \<in> set (fst (scan_friends st keep fs)) \<Longrightarrow> map_of st x = Some True"
  by (induction fs) (auto split: option.splits if_splits)

lemma reliable_links_solved:
  "x \<in> set (fst (reliable_links so nd vl st ls)) \<Longrightarrow> map_of st x = Some True"
proof (induction ls)
  case Nil
  then show ?case by simp
next
  case (Cons l ls)
  have sc: "\<And>ns found e. scan_friends st (\<lambda>friend. friend \<noteq> nd) (so ns) = (found, e)
              \<Longrightarrow> x \<in> set found \<Longrightarrow> map_of st x = Some True"
    using scan_friends_solved [of x st "\<lambda>friend. friend \<noteq> nd"] by (metis fst_conv)
  from Cons show ?case
    by (auto split: option.splits if_splits prod.splits dest: sc)
qed

lemma next_of_Got:
  "next_of g = Got a g' \<Longrightarrow> a \<in> set (fst g) \<and> set (fst g') \<subseteq> set (fst g)"
  by (auto simp: next_of_def split: list.splits option.splits)

lemma not_base_friend_solved:
  assumes "next_of (get_not_base_friend so nd vps vl st) = Got fa g"
  shows "map_of st fa = Some True"
proof -
  from next_of_Got [OF assms] have "fa \<in> set (fst (get_not_base_friend so nd vps vl st))"
    by simp
  then show ?thesis
    by (auto simp: get_not_base_friend_def dest: scan_friends_solved
        split: if_splits option.splits)
qed

lemma reliable_friends_solved:
  assumes "next_of (get_reliable_friend so nd vps vl st) = Got fa g" and "next_of g = Got fb g'"
  shows "map_of st fa = Some True \<and> map_of st fb = Some True"
proof -
  from next_of_Got [OF assms(1)] next_of_Got [OF assms(2)]
  have "fa \<in> set (fst (get_reliable_friend so nd vps vl st))"
    and "fb \<in> set (fst (get_reliable_friend so nd vps vl st))" by auto
  then show ?thesis by (auto simp: get_reliable_friend_def dest: reliable_links_solved)
qed

subsection \<open>Stacks whose operands are known\<close>

lemma operands_known_append:
  assumes "operands_known K ops es"
    and "\<forall>e \<in> set new. \<forall>m \<in> set (ops e). K m \<or> (\<exists>e' \<in> set es. target e' = (P_LABEL, m))"
  shows "operands_known K ops (es @ new)"
  unfolding operands_known_def
proof (intro allI impI ballI)
  fix i m
  assume i: "i < length (es @ new)" and m: "m \<in> set (ops ((es @ new) ! i))"
  show "K m \<or> (\<exists>j<i. target ((es @ new) ! j) = (P_LABEL, m))"
  proof (cases "i < length es")
    case True
    then have "m \<in> set (ops (es ! i))" using m by (simp add: nth_append)
    with assms(1) True have "K m \<or> (\<exists>j<i. target (es ! j) = (P_LABEL, m))"
      unfolding operands_known_def by blast
    then show ?thesis
    proof
      assume "K m" then show ?thesis ..
    next
      assume "\<exists>j<i. target (es ! j) = (P_LABEL, m)"
      then obtain j where j: "j < i" "target (es ! j) = (P_LABEL, m)" by blast
      then have "target ((es @ new) ! j) = (P_LABEL, m)" using True by (simp add: nth_append)
      with j(1) show ?thesis by blast
    qed
  next
    case False
    then have "(es @ new) ! i \<in> set new" using i by (simp add: nth_append)
    with assms(2) m have "K m \<or> (\<exists>e' \<in> set es. target e' = (P_LABEL, m))" by blast
    then show ?thesis
    proof
      assume "K m" then show ?thesis ..
    next
      assume "\<exists>e' \<in> set es. target e' = (P_LABEL, m)"
      then obtain e' where "e' \<in> set es" and t: "target e' = (P_LABEL, m)" by blast
      then obtain j where j: "j < length es" "es ! j = e'" by (auto simp: in_set_conv_nth)
      then have "j < i" "target ((es @ new) ! j) = (P_LABEL, m)"
        using False t by (simp_all add: nth_append)
      then show ?thesis by blast
    qed
  qed
qed

lemma stack_inv_extend:
  assumes inv: "stack_inv K s"
    and ops: "\<forall>e \<in> set new. \<forall>m \<in> set (checked_operands e). map_of (st_status s) m = Some True"
    and tg: "\<forall>e \<in> set new. snd (target e) = n"
    and pt: "\<exists>e \<in> set new. target e = (P_LABEL, n)"
    and ex: "st_exprs s' = st_exprs s @ new"
    and st: "st_status s' = AList.update n True (st_status s)"
  shows "stack_inv K s'"
proof -
  from inv have
    T: "\<forall>e \<in> set (st_exprs s). map_of (st_status s) (snd (target e)) = Some True" and
    S: "\<forall>m. map_of (st_status s) m = Some True \<longrightarrow>
          K m \<or> (\<exists>e \<in> set (st_exprs s). target e = (P_LABEL, m))" and
    O: "operands_known K checked_operands (st_exprs s)"
    by (simp_all add: stack_inv_def)
  have T': "\<forall>e \<in> set (st_exprs s'). map_of (st_status s') (snd (target e)) = Some True"
  proof
    fix e assume "e \<in> set (st_exprs s')"
    then have "e \<in> set (st_exprs s) \<or> e \<in> set new" by (simp add: ex)
    then show "map_of (st_status s') (snd (target e)) = Some True"
      using T tg by (auto simp: st update_conv')
  qed
  have S': "\<forall>m. map_of (st_status s') m = Some True \<longrightarrow>
          K m \<or> (\<exists>e \<in> set (st_exprs s'). target e = (P_LABEL, m))"
  proof (intro allI impI)
    fix m assume m: "map_of (st_status s') m = Some True"
    show "K m \<or> (\<exists>e \<in> set (st_exprs s'). target e = (P_LABEL, m))"
    proof (cases "m = n")
      case True
      from pt obtain e where "e \<in> set new" "target e = (P_LABEL, n)" by blast
      then have "e \<in> set (st_exprs s') \<and> target e = (P_LABEL, m)" using True by (simp add: ex)
      then show ?thesis by blast
    next
      case False
      with m have "map_of (st_status s) m = Some True" by (simp add: st update_conv')
      with S have "K m \<or> (\<exists>e \<in> set (st_exprs s). target e = (P_LABEL, m))" by blast
      then show ?thesis by (auto simp: ex)
    qed
  qed
  have "\<forall>e \<in> set new. \<forall>m \<in> set (checked_operands e).
          K m \<or> (\<exists>e' \<in> set (st_exprs s). target e' = (P_LABEL, m))"
  proof (intro ballI)
    fix e m assume "e \<in> set new" "m \<in> set (checked_operands e)"
    with ops have "map_of (st_status s) m = Some True" by blast
    with S show "K m \<or> (\<exists>e' \<in> set (st_exprs s). target e' = (P_LABEL, m))" by blast
  qed
  then have O': "operands_known K checked_operands (st_exprs s')"
    unfolding ex by (rule operands_known_append [OF O])
  from T' S' O' show ?thesis by (simp add: stack_inv_def)
qed

lemma stack_inv_cong:
  "stack_inv K s \<Longrightarrow> st_exprs s' = st_exprs s \<Longrightarrow> st_status s' = st_status s \<Longrightarrow> stack_inv K s'"
  by (simp add: stack_inv_def)

subsection \<open>Every step keeps the stack sound\<close>

lemma emit_pla_inv:
  assumes "stack_inv K s" and "map_of (st_status s) base = Some True"
  shows "stack_inv K (emit_pla base nd s)"
  by (rule stack_inv_extend [OF assms(1), where n = nd and new =
        "[PLA (P_LABEL, base) (L_LABEL, st_link_symbol s) (A_LABEL, st_angle_symbol s)
            (P_LABEL, nd)]"])
     (simp_all add: emit_pla_def add_pla_def point_index_def assms(2))

lemma no_progress_inv: "stack_inv K s \<Longrightarrow> stack_inv K (no_progress s)"
  by (rule stack_inv_cong) (simp_all add: no_progress_def)

lemma input_step_inv:
  assumes "input_step bn s = Inr s'" and "stack_inv K s"
  shows "stack_inv K s'"
  using assms
  by (auto simp: input_step_def emit_pla_inv split: prod.splits option.splits if_splits)

lemma r_step_inv:
  assumes "r_step so env s = Inr s'" and "stack_inv K s"
  shows "stack_inv K s'"
proof (cases "st_node s \<in> set (map snd (env_inputs env))")
  case True
  with assms show ?thesis
    by (auto simp: r_step_def Let_def emit_pla_inv no_progress_inv
        split: option.splits if_splits)
next
  case False
  let ?g = "get_reliable_friend so (st_node s) (env_vpoints env) (env_vlinks env) (st_status s)"
  show ?thesis
  proof (cases "next_of ?g")
    case Stop
    with assms False show ?thesis by (auto simp: r_step_def Let_def no_progress_inv)
  next
    case (Raised e)
    with assms False show ?thesis by (auto simp: r_step_def Let_def)
  next
    case (Got fa fi)
    show ?thesis
    proof (cases "next_of fi")
      case Stop
      with assms False Got show ?thesis by (auto simp: r_step_def Let_def no_progress_inv)
    next
      case (Raised e)
      with assms False Got show ?thesis by (auto simp: r_step_def Let_def)
    next
      case g2: (Got fb fi')
      from reliable_friends_solved [OF Got g2] have
        fa: "map_of (st_status s) fa = Some True" and fb: "map_of (st_status s) fb = Some True"
        by simp_all
      define swap where
        "swap = (\<not> clockwise (env_pos env ! fa) (env_pos env ! st_node s) (env_pos env ! fb))"
      define e where "e = PLLP (P_LABEL, if swap then fb else fa) (L_LABEL, st_link_symbol s)
          (L_LABEL, st_link_symbol s + 1) (P_LABEL, if swap then fa else fb)
          (P_LABEL, st_node s)"
      from assms(1) False Got g2 have
        ex: "st_exprs s' = st_exprs s @ [e]" and
        st: "st_status s' = AList.update (st_node s) True (st_status s)"
        by (auto simp: r_step_def Let_def add_pllp_def e_def swap_def split: if_splits)
      show ?thesis
        by (rule stack_inv_extend [OF assms(2) _ _ _ ex st])
           (simp_all add: e_def point_index_def fa fb)
    qed
  qed
qed

lemma pxy_friend_inv:
  assumes "pxy_friend nd fb t = Inr t'"
    and "stack_inv K t \<and> map_of (st_status t) nd = Some True"
  shows "stack_inv K t' \<and> map_of (st_status t') nd = Some True"
proof (cases "map_of (st_status t) fb = Some False")
  case True
  define e where "e = PXY (P_LABEL, nd) (L_LABEL, st_link_symbol t)
      (L_LABEL, st_link_symbol t + 1) (P_LABEL, fb)"
  from assms(1) True have
    ex: "st_exprs t' = st_exprs t @ [e]" and
    st: "st_status t' = AList.update fb True (st_status t)"
    by (auto simp: pxy_friend_def add_pxy_def e_def)
  have "stack_inv K t'"
    by (rule stack_inv_extend [OF _ _ _ _ ex st])
       (use assms(2) in \<open>simp_all add: e_def point_index_def\<close>)
  then show ?thesis using assms(2) by (simp add: st update_conv')
next
  case False
  with assms show ?thesis by (auto simp: pxy_friend_def split: option.splits if_splits)
qed

lemma pxy_link_inv:
  assumes "pxy_link so env nd link t = Inr t'"
    and "stack_inv K t \<and> map_of (st_status t) nd = Some True"
  shows "stack_inv K t' \<and> map_of (st_status t') nd = Some True"
proof (cases "map_of (env_vlinks env) link")
  case None
  with assms(1) show ?thesis by (simp add: pxy_link_def)
next
  case (Some ns)
  with assms(1) have f: "fold_err (pxy_friend nd) (so ns) t = Inr t'" by (simp add: pxy_link_def)
  show ?thesis
    by (rule fold_err_rule [OF f, where I = "\<lambda>u. stack_inv K u
          \<and> map_of (st_status u) nd = Some True"]) (use assms(2) pxy_friend_inv in blast)+
qed

lemma p_step_inv:
  assumes "p_step so env s = Inr s'" and "stack_inv K s"
  shows "stack_inv K s'"
proof -
  let ?nd = "st_node s" and ?v = "env_vpoints env ! st_node s"
  let ?g = "get_not_base_friend so ?nd (env_vpoints env) (env_vlinks env) (st_status s)"
  show ?thesis
  proof (cases "pin_grounded ?v \<or> \<not> grounded ?v \<or> has_offset ?v")
    case True
    with assms show ?thesis by (auto simp: p_step_def Let_def no_progress_inv)
  next
    case False
    show ?thesis
    proof (cases "next_of ?g")
      case Stop
      with assms False show ?thesis by (auto simp: p_step_def Let_def no_progress_inv)
    next
      case (Raised e)
      with assms False show ?thesis by (auto simp: p_step_def Let_def)
    next
      case (Got fa fi)
      define e where "e = PXY (P_LABEL, fa) (L_LABEL, st_link_symbol s)
          (L_LABEL, st_link_symbol s + 1) (P_LABEL, ?nd)"
      define s1 where "s1 = s\<lparr> st_exprs := add_pxy (st_exprs s) (P_LABEL, fa)
                            (L_LABEL, st_link_symbol s) (L_LABEL, st_link_symbol s + 1)
                            (P_LABEL, ?nd),
                          st_status := AList.update ?nd True (st_status s),
                          st_link_symbol := st_link_symbol s + 2 \<rparr>"
      from assms False Got obtain s2 where
        f: "fold_err (pxy_link so env ?nd) (tl (links ?v)) s1 = Inr s2" and
        s': "s' = s2\<lparr> st_skip_times := 0 \<rparr>"
        by (auto simp: p_step_def Let_def s1_def split: sum.splits)
      have fa: "map_of (st_status s) fa = Some True" by (rule not_base_friend_solved [OF Got])
      have ex: "st_exprs s1 = st_exprs s @ [e]" by (simp add: s1_def e_def add_pxy_def)
      have st: "st_status s1 = AList.update ?nd True (st_status s)" by (simp add: s1_def)
      have "stack_inv K s1"
        by (rule stack_inv_extend [OF assms(2) _ _ _ ex st])
           (simp_all add: e_def point_index_def fa)
      then have start: "stack_inv K s1 \<and> map_of (st_status s1) ?nd = Some True"
        by (simp add: st update_conv')
      have "stack_inv K s2 \<and> map_of (st_status s2) ?nd = Some True"
        by (rule fold_err_rule [OF f, where I = "\<lambda>u. stack_inv K u
              \<and> map_of (st_status u) ?nd = Some True"])
           (use start pxy_link_inv in blast)+
      then show ?thesis by (auto simp: s' intro: stack_inv_cong)
    qed
  qed
qed

lemma rp_emit_inv:
  assumes "rp_emit env nd tmp fa fb s = Inr s'" and "stack_inv K s"
    and "map_of (st_status s) fa = Some True"
  shows "stack_inv K s'"
proof -
  define swap where "swap = (\<not> clockwise (env_pos env ! fb) tmp (env_pos env ! nd))"
  define e1 where "e1 = PLLP (P_LABEL, if swap then nd else fb) (L_LABEL, st_link_symbol s)
      (L_LABEL, st_link_symbol s + 1) (P_LABEL, if swap then fb else nd) (S_LABEL, nd)"
  define e2 where "e2 = PLPP (P_LABEL, fa) (L_LABEL, st_link_symbol s + 2) (P_LABEL, nd)
      (S_LABEL, nd) (P_LABEL, nd)
      ((fst (env_pos env ! fa) - fst (env_pos env ! nd) > 0) \<noteq> (angle (env_vpoints env ! nd) > 90))"
  from assms(1) have
    ex: "st_exprs s' = st_exprs s @ [e1, e2]" and
    st: "st_status s' = AList.update nd True (st_status s)"
    by (auto simp: rp_emit_def Let_def add_pllp_def add_plpp_def e1_def e2_def swap_def
        split: if_splits)
  show ?thesis
    by (rule stack_inv_extend [OF assms(2) _ _ _ ex st])
       (simp_all add: e1_def e2_def point_index_def assms(3))
qed

lemma rp_step_inv:
  assumes "rp_step so env s = Inr s'" and "stack_inv K s"
  shows "stack_inv K s'"
proof -
  let ?nd = "st_node s" and ?v = "env_vpoints env ! st_node s"
  let ?g = "get_not_base_friend so ?nd (env_vpoints env) (env_vlinks env) (st_status s)"
  let ?b = "get_base_friend so ?nd (env_vpoints env) (env_vlinks env) (st_status s)"
  show ?thesis
  proof (cases "pin_grounded ?v \<or> \<not> grounded ?v \<or> has_offset ?v")
    case True
    with assms show ?thesis by (auto simp: rp_step_def Let_def no_progress_inv)
  next
    case False
    then have gr: "grounded ?v" by simp
    show ?thesis
    proof (cases "next_of ?g")
      case Stop
      with assms False show ?thesis by (auto simp: rp_step_def Let_def no_progress_inv)
    next
      case (Raised e)
      with assms False show ?thesis by (auto simp: rp_step_def Let_def)
    next
      case (Got fa unused)
      have fa: "map_of (st_status s) fa = Some True" by (rule not_base_friend_solved [OF Got])
      show ?thesis
      proof (cases "next_of ?b")
        case Stop
        with assms False Got show ?thesis by (auto simp: rp_step_def Let_def no_progress_inv)
      next
        case (Raised e)
        with assms False Got show ?thesis by (auto simp: rp_step_def Let_def)
      next
        case b: (Got fb fi)
        from assms(1) False Got b gr obtain tmp where
          "rp_emit env ?nd tmp fa fb s = Inr s'"
          by (auto simp: rp_step_def Let_def)
        then show ?thesis using assms(2) fa by (rule rp_emit_inv)
      qed
    qed
  qed
qed

lemma visit_inv:
  assumes "visit so env s = Inr s'" and "stack_inv K s"
  shows "stack_inv K s'"
proof (cases "jtype (env_vpoints env ! st_node s)")
  case R
  with assms show ?thesis by (auto simp: visit_def split: if_splits dest: r_step_inv)
next
  case P
  with assms show ?thesis by (auto simp: visit_def split: if_splits dest: p_step_inv)
next
  case RP
  with assms show ?thesis by (auto simp: visit_def split: if_splits dest: rp_step_inv)
qed

lemma loop_step_inv:
  assumes "loop_step so env s = Next s'" and "stack_inv K s"
  shows "stack_inv K s'"
proof -
  from assms(1) consider "s' = s\<lparr> st_node := 0 \<rparr>"
    | "s' = s\<lparr> st_node := st_node s + 1, st_skip_times := st_skip_times s + 1 \<rparr>"
    | t where "visit so env s = Inr t" "s' = t\<lparr> st_node := st_node t + 1 \<rparr>"
    by (auto simp: loop_step_def split: if_splits sum.splits)
  then show ?thesis
  proof cases
    case 1
    then show ?thesis using assms(2) by (auto intro: stack_inv_cong)
  next
    case 2
    then show ?thesis using assms(2) by (auto intro: stack_inv_cong)
  next
    case 3
    from visit_inv [OF 3(1) assms(2)] show ?thesis by (auto simp: 3(2) intro: stack_inv_cong)
  qed
qed

subsection \<open>Soundness of the stack\<close>

lemma setup_inv:
  assumes "t_config_setup so vps ins st = Inr (env, s1)"
  shows "stack_inv (initially_solved vps st) s1"
proof -
  let ?s0 = "\<lparr> st_status = fst (init_tables vps st), st_exprs = [],
                 st_link_symbol = 0, st_angle_symbol = 0, st_node = 0,
                 st_skip_times = 0 \<rparr>"
  from assms have f: "fold_err input_step ins ?s0 = Inr s1"
    by (auto simp: t_config_setup_def split: sum.splits)
  have "stack_inv (initially_solved vps st) ?s0"
    by (simp add: stack_inv_def operands_known_def init_status_solved)
  show ?thesis
    by (rule fold_err_rule [OF f, where I = "stack_inv (initially_solved vps st)"])
       (use \<open>stack_inv (initially_solved vps st) ?s0\<close> input_step_inv in blast)+
qed

text \<open>
  C1, amended: when \<open>t_config\<close> returns a stack, the joint named by the target symbol of
  every construction is marked solved in \<open>status\<close>, and every operand that the search takes
  from a test of \<open>status\<close> (all point operands of PLA, PXY and of a PLLP that places a joint,
  and the first operand of a PLPP) is a joint solved from the start (a joint without links,
  an R joint on the ground link, a true entry of the caller's \<open>status\<close> behind the joint
  list) or the target point of an earlier construction of the stack.
\<close>

theorem t_config_soundness:
  assumes "t_config so vps inputs_arg status_arg = Some (Inr (stack, status'))"
  shows "(\<forall>e \<in> set stack. map_of status' (snd (target e)) = Some True) \<and>
         operands_known
           (initially_solved vps (case status_arg of None \<Rightarrow> [] | Some given \<Rightarrow> given))
           checked_operands stack"
proof -
  define ins where "ins = (case inputs_arg of None \<Rightarrow> [] | Some given \<Rightarrow> given)"
  define st where "st = (case status_arg of None \<Rightarrow> [] | Some given \<Rightarrow> given)"
  show ?thesis
  proof (cases "vps = [] \<or> ins = []")
    case True
    with assms have "stack = []"
      by (auto simp: t_config_def ins_def Let_def split: if_splits)
    then show ?thesis by (simp add: operands_known_def)
  next
    case False
    with assms obtain env s1 s2 where
      su: "t_config_setup so vps ins st = Inr (env, s1)" and
      loop: "main_loop so env s1 = Some (Inr s2)" and
      res: "stack = st_exprs s2" "status' = st_status s2"
      by (auto simp: t_config_def ins_def st_def Let_def
          split: if_splits sum.splits option.splits)
    have k: "map_of (st_status s1) 0 \<noteq> None" using setup_key su False by blast
    have "stack_inv (initially_solved vps st) s1" by (rule setup_inv [OF su])
    from main_loop_rule [of "stack_inv (initially_solved vps st)" s1 so env, OF this k]
      loop_step_inv loop
    have "stack_inv (initially_solved vps st) s2" by fastforce
    then show ?thesis by (simp add: stack_inv_def res st_def)
  qed
qed

text \<open>Two runs: the crank that drives a grounded RP joint, and the four-bar linkage.\<close>

lemma crank_slider_run:
  "t_config (\<lambda>ns. ns) crank_slider (Some [(1, 2)]) None =
     Some (Inr ([PLA (P_LABEL, 1) (L_LABEL, 0) (A_LABEL, 0) (P_LABEL, 2),
                 PLLP (P_LABEL, 0) (L_LABEL, 1) (L_LABEL, 2) (P_LABEL, 3) (S_LABEL, 3),
                 PLPP (P_LABEL, 2) (L_LABEL, 3) (P_LABEL, 3) (S_LABEL, 3) (P_LABEL, 3) False],
                [(0, True), (1, True), (2, True), (3, True)]))"
  by (simp add: crank_slider_def run_defs numeral_2_eq_2 numeral_3_eq_3)

lemma fourbar_run:
  "t_config (\<lambda>ns. ns) fourbar (Some [(0, 2)]) None =
     Some (Inr ([PLA (P_LABEL, 0) (L_LABEL, 0) (A_LABEL, 0) (P_LABEL, 2),
                 PLLP (P_LABEL, 2) (L_LABEL, 1) (L_LABEL, 2) (P_LABEL, 1) (P_LABEL, 3)],
                [(0, True), (1, True), (2, True), (3, True)]))"
  by (simp add: fourbar_def run_defs numeral_2_eq_2 numeral_3_eq_3)

theorem t_config_soundness_witness:
  "t_config (\<lambda>ns. ns) crank_slider (Some [(1, 2)]) None =
     Some (Inr ([PLA (P_LABEL, 1) (L_LABEL, 0) (A_LABEL, 0) (P_LABEL, 2),
                 PLLP (P_LABEL, 0) (L_LABEL, 1) (L_LABEL, 2) (P_LABEL, 3) (S_LABEL, 3),
                 PLPP (P_LABEL, 2) (L_LABEL, 3) (P_LABEL, 3) (S_LABEL, 3) (P_LABEL, 3) False],
                [(0, True), (1, True), (2, True), (3, True)])) \<and>
   list_all (\<lambda>e. map_of [(0, True), (1, True), (2, True), (3::nat, True)] (snd (target e)) = Some True)
     [PLA (P_LABEL, 1) (L_LABEL, 0) (A_LABEL, 0) (P_LABEL, 2),
      PLLP (P_LABEL, 0) (L_LABEL, 1) (L_LABEL, 2) (P_LABEL, 3) (S_LABEL, 3),
      PLPP (P_LABEL, 2) (L_LABEL, 3) (P_LABEL, 3) (S_LABEL, 3) (P_LABEL, 3) False] \<and>
   operands_known (initially_solved crank_slider []) checked_operands
     [PLA (P_LABEL, 1) (L_LABEL, 0) (A_LABEL, 0) (P_LABEL, 2),
      PLLP (P_LABEL, 0) (L_LABEL, 1) (L_LABEL, 2) (P_LABEL, 3) (S_LABEL, 3),
      PLPP (P_LABEL, 2) (L_LABEL, 3) (P_LABEL, 3) (S_LABEL, 3) (P_LABEL, 3) False]"
  using t_config_soundness [OF crank_slider_run] crank_slider_run
  by (simp add: list_all_iff)

text \<open>
  C1, as stated: every operand point is the driver of an input pair or the target of an
  earlier construction. In the run of \<open>crank_slider\<close> with the input pair \<open>(1, 2)\<close> the
  second construction, the PLLP that places the slot point \<open>S3\<close> of the RP joint 3, has the
  operand points 0 and 3: joint 0 is a grounded joint that drives nothing, and joint 3 is
  the RP joint itself, neither solved from the start nor the target of the construction
  before it.
\<close>

theorem t_config_operands_counterexample:
  "t_config (\<lambda>ns. ns) crank_slider (Some [(1, 2)]) None =
     Some (Inr ([PLA (P_LABEL, 1) (L_LABEL, 0) (A_LABEL, 0) (P_LABEL, 2),
                 PLLP (P_LABEL, 0) (L_LABEL, 1) (L_LABEL, 2) (P_LABEL, 3) (S_LABEL, 3),
                 PLPP (P_LABEL, 2) (L_LABEL, 3) (P_LABEL, 3) (S_LABEL, 3) (P_LABEL, 3) False],
                [(0, True), (1, True), (2, True), (3, True)])) \<and>
   \<not> operands_known (\<lambda>m. m \<in> set (map fst [(1::nat, 2::nat)])) point_operands
       [PLA (P_LABEL, 1) (L_LABEL, 0) (A_LABEL, 0) (P_LABEL, 2),
        PLLP (P_LABEL, 0) (L_LABEL, 1) (L_LABEL, 2) (P_LABEL, 3) (S_LABEL, 3),
        PLPP (P_LABEL, 2) (L_LABEL, 3) (P_LABEL, 3) (S_LABEL, 3) (P_LABEL, 3) False] \<and>
   \<not> operands_known
       (\<lambda>m. m \<in> set (map fst [(1::nat, 2::nat)]) \<or> initially_solved crank_slider [] m)
       point_operands
       [PLA (P_LABEL, 1) (L_LABEL, 0) (A_LABEL, 0) (P_LABEL, 2),
        PLLP (P_LABEL, 0) (L_LABEL, 1) (L_LABEL, 2) (P_LABEL, 3) (S_LABEL, 3),
        PLPP (P_LABEL, 2) (L_LABEL, 3) (P_LABEL, 3) (S_LABEL, 3) (P_LABEL, 3) False]"
proof (intro conjI notI)
  show "t_config (\<lambda>ns. ns) crank_slider (Some [(1, 2)]) None =
     Some (Inr ([PLA (P_LABEL, 1) (L_LABEL, 0) (A_LABEL, 0) (P_LABEL, 2),
                 PLLP (P_LABEL, 0) (L_LABEL, 1) (L_LABEL, 2) (P_LABEL, 3) (S_LABEL, 3),
                 PLPP (P_LABEL, 2) (L_LABEL, 3) (P_LABEL, 3) (S_LABEL, 3) (P_LABEL, 3) False],
                [(0, True), (1, True), (2, True), (3, True)]))"
    by (rule crank_slider_run)
next
  let ?stack = "[PLA (P_LABEL, 1) (L_LABEL, 0) (A_LABEL, 0) (P_LABEL, 2),
        PLLP (P_LABEL, 0) (L_LABEL, 1) (L_LABEL, 2) (P_LABEL, 3) (S_LABEL, 3),
        PLPP (P_LABEL, 2) (L_LABEL, 3) (P_LABEL, 3) (S_LABEL, 3) (P_LABEL, 3) False]"
  assume "operands_known (\<lambda>m. m \<in> set (map fst [(1::nat, 2::nat)])) point_operands ?stack"
  moreover have "1 < length ?stack" by simp
  ultimately have "\<forall>m \<in> set (point_operands (?stack ! 1)).
      m \<in> set (map fst [(1::nat, 2::nat)]) \<or> (\<exists>j<1. target (?stack ! j) = (P_LABEL, m))"
    unfolding operands_known_def by blast
  then show False by (simp add: point_index_def)
next
  let ?stack = "[PLA (P_LABEL, 1) (L_LABEL, 0) (A_LABEL, 0) (P_LABEL, 2),
        PLLP (P_LABEL, 0) (L_LABEL, 1) (L_LABEL, 2) (P_LABEL, 3) (S_LABEL, 3),
        PLPP (P_LABEL, 2) (L_LABEL, 3) (P_LABEL, 3) (S_LABEL, 3) (P_LABEL, 3) False]"
  assume "operands_known
       (\<lambda>m. m \<in> set (map fst [(1::nat, 2::nat)]) \<or> initially_solved crank_slider [] m)
       point_operands ?stack"
  moreover have "1 < length ?stack" by simp
  ultimately have "\<forall>m \<in> set (point_operands (?stack ! 1)).
      (m \<in> set (map fst [(1::nat, 2::nat)]) \<or> initially_solved crank_slider [] m)
      \<or> (\<exists>j<1. target (?stack ! j) = (P_LABEL, m))"
    unfolding operands_known_def by blast
  then show False
    by (simp add: point_index_def initially_solved_def crank_slider_def c_slider_joint_def
        c_r_joint_def new_VPoint_def FRAME_def)
qed

subsection \<open>Nothing to do\<close>

text \<open>
  C9: with an empty joint list, or with no input list or an empty one, \<open>t_config\<close> returns
  the empty stack and the caller's \<open>status\<close> as it was given.
\<close>

theorem t_config_nothing_to_do:
  assumes "vps = [] \<or> inputs_arg = None \<or> inputs_arg = Some []"
  shows "t_config so vps inputs_arg (Some status) = Some (Inr ([], status)) \<and>
         t_config so vps inputs_arg None = Some (Inr ([], []))"
  using assms by (auto simp: t_config_def Let_def)

theorem t_config_nothing_to_do_witness:
  "t_config (\<lambda>ns. ns) fourbar (Some []) (Some [(7, False)]) = Some (Inr ([], [(7, False)])) \<and>
   t_config (\<lambda>ns. ns) [] (Some [(0, 2)]) (Some [(7, False)]) = Some (Inr ([], [(7, False)])) \<and>
   t_config (\<lambda>ns. ns) fourbar None (Some [(7, False)]) = Some (Inr ([], [(7, False)]))"
  using t_config_nothing_to_do [of fourbar "Some []" "\<lambda>ns. ns" "[(7, False)]"]
    t_config_nothing_to_do [of "[]" "Some [(0, 2)]" "\<lambda>ns. ns" "[(7, False)]"]
    t_config_nothing_to_do [of fourbar None "\<lambda>ns. ns" "[(7, False)]"]
  by simp

end
